theory Spec2Isabelle
  imports Main "HOL-Library.Sublist"
begin

text \<open>
  Simpress is a small HTTP framework for Node.js: routes with a path pattern, a method and a
  request listener; routers that hold routes; an application that holds routers; and lists of
  middlewares and error middlewares at each of the three. This theory models the route
  registry (\<open>route\<close>, \<open>findRoute\<close>, \<open>use\<close>, \<open>useForError\<close>), the patterns the registry
  makes from string paths, and the request listener that \<open>toListener\<close> returns, and proves
  properties of them.
\<close>

section \<open>JavaScript values and errors\<close>

text \<open>
  The values that are not thenables: what an \<open>await\<close> yields, what an error middleware is
  called with as the error, and what is thrown. The executor only ever compares such a value
  with \<open>undefined\<close> by the strict operators \<open>===\<close> and \<open>!==\<close>, which on these values is
  equality of the constructors, so numbers are kept as integers and errors as their messages.
  A continuation \<open>next\<close> can be handed any of them (\<open>next()\<close> hands \<open>Undefined\<close>) and it
  can be handed a promise or another thenable: what a continuation is handed is the type
  \<open>nextArg\<close> below.
\<close>

datatype jsval = Undefined | Null | JBool bool | JNum int | JStr string | JError string

text \<open>
  Exceptions of the runtime that the registration code can raise. \<open>Unsupported\<close> is not a
  JavaScript exception: it marks pattern syntax outside the part of the pattern language that
  is modelled below (look-behind, back references, \<open>\b\<close> and \<open>\B\<close>, and the escapes written
  with digits or with \<open>c\<close>, \<open>x\<close>, \<open>u\<close>, \<open>k\<close>, \<open>p\<close>).
\<close>

datatype error = SyntaxError | TypeError | Unsupported

section \<open>The built-in \<open>RegExp\<close>\<close>

text \<open>
  The registration code calls \<open>new RegExp\<close> and the listener calls \<open>test\<close>. Both belong to
  the runtime; they are modelled after the pattern grammar of ECMAScript as Node reads it when
  no flag is given (with the extensions of its Annex B).
\<close>

definition bslash :: char where
  "bslash = CHR 0x5C"

datatype cls = DigitC | WordC | SpaceC

text \<open>What stands between the brackets of a character class.\<close>

datatype citem = CChar char | CRange char char | CCls cls bool

datatype grp = Capture | Named string | NonCapture | LookAhead bool

datatype re =
    Eps
  | Lit char
  | Dot
  | Cls cls bool
  | Set bool "citem list"
  | Bol
  | Eol
  | Seq re re
  | Alt re re
  | Opt re
  | Star re
  | Plus re
  | Repeat nat "nat option" re
  | Grp grp re

subsection \<open>Matching\<close>

text \<open>
  A position is the index reached in the subject string and the rest of the string from there.
  \<open>ends r p\<close> lists the positions at which a match of \<open>r\<close> that starts at \<open>p\<close> can
  end. No flag is set, so \<open>^\<close> holds at index 0 only and \<open>$\<close> at the end of the string only.
  Whether a match exists does not depend on greediness or on what the groups capture, so
  neither is kept. Characters are the 8-bit characters of \<open>string\<close>: the classes \<open>\d\<close>,
  \<open>\w\<close>, \<open>\s\<close> and the line terminators are their ASCII members.
\<close>

type_synonym pos = "nat \<times> string"

definition isDigit :: "char \<Rightarrow> bool" where
  "isDigit c = (48 \<le> (of_char c :: nat) \<and> (of_char c :: nat) \<le> 57)"

definition isLetter :: "char \<Rightarrow> bool" where
  "isLetter c = ((65 \<le> (of_char c :: nat) \<and> (of_char c :: nat) \<le> 90) \<or>
                 (97 \<le> (of_char c :: nat) \<and> (of_char c :: nat) \<le> 122))"

definition isWordChar :: "char \<Rightarrow> bool" where
  "isWordChar c = (isLetter c \<or> isDigit c \<or> c = CHR ''_'')"

definition isSpace :: "char \<Rightarrow> bool" where
  "isSpace c = ((of_char c :: nat) \<in> {9, 10, 11, 12, 13, 32})"

definition isLineTerminator :: "char \<Rightarrow> bool" where
  "isLineTerminator c = ((of_char c :: nat) \<in> {10, 13})"

fun inCls :: "cls \<Rightarrow> char \<Rightarrow> bool" where
  "inCls DigitC c = isDigit c"
| "inCls WordC c = isWordChar c"
| "inCls SpaceC c = isSpace c"

fun inItem :: "citem \<Rightarrow> char \<Rightarrow> bool" where
  "inItem (CChar c) d = (d = c)"
| "inItem (CRange lo hi) d = ((of_char lo :: nat) \<le> of_char d \<and> (of_char d :: nat) \<le> of_char hi)"
| "inItem (CCls k neg) d = (inCls k d \<noteq> neg)"

fun eat :: "(char \<Rightarrow> bool) \<Rightarrow> pos \<Rightarrow> pos list" where
  "eat P (i, []) = []"
| "eat P (i, c # cs) = (if P c then [(Suc i, cs)] else [])"

definition starStep :: "(pos \<Rightarrow> pos list) \<Rightarrow> pos list \<Rightarrow> pos list" where
  "starStep f ps = remdups (ps @ concat (map f ps))"

text \<open>The ends of zero or more matches in a row, of exactly \<open>n\<close>, and of \<open>n\<close> to \<open>n + k\<close>.\<close>

definition starEnds :: "(pos \<Rightarrow> pos list) \<Rightarrow> pos \<Rightarrow> pos list" where
  "starEnds f p = (starStep f ^^ length (snd p)) [p]"

definition exactly :: "(pos \<Rightarrow> pos list) \<Rightarrow> nat \<Rightarrow> pos \<Rightarrow> pos list" where
  "exactly f n p = ((\<lambda>ps. concat (map f ps)) ^^ n) [p]"

fun upTo :: "(pos \<Rightarrow> pos list) \<Rightarrow> nat \<Rightarrow> pos list \<Rightarrow> pos list" where
  "upTo f 0 ps = ps"
| "upTo f (Suc k) ps = ps @ upTo f k (concat (map f ps))"

primrec ends :: "re \<Rightarrow> pos \<Rightarrow> pos list" where
  "ends Eps p = [p]"
| "ends (Lit c) p = eat (\<lambda>d. d = c) p"
| "ends Dot p = eat (\<lambda>d. \<not> isLineTerminator d) p"
| "ends (Cls k neg) p = eat (\<lambda>d. inCls k d \<noteq> neg) p"
| "ends (Set neg items) p = eat (\<lambda>d. list_ex (\<lambda>it. inItem it d) items \<noteq> neg) p"
| "ends Bol p = (if fst p = 0 then [p] else [])"
| "ends Eol p = (if snd p = [] then [p] else [])"
| "ends (Seq a b) p = concat (map (ends b) (ends a p))"
| "ends (Alt a b) p = ends a p @ ends b p"
| "ends (Opt a) p = ends a p @ [p]"
| "ends (Star a) p = starEnds (ends a) p"
| "ends (Plus a) p = concat (map (starEnds (ends a)) (ends a p))"
| "ends (Repeat n mo a) p =
     (case mo of
        None \<Rightarrow> concat (map (starEnds (ends a)) (exactly (ends a) n p))
      | Some m \<Rightarrow> upTo (ends a) (m - n) (exactly (ends a) n p))"
| "ends (Grp g a) p =
     (case g of
        LookAhead neg \<Rightarrow> (if (ends a p = []) = neg then [p] else [])
      | _ \<Rightarrow> ends a p)"

subsection \<open>Parsing a pattern string\<close>

text \<open>
  The pattern is read one character at a time. The parser keeps the alternatives finished so
  far and the terms of the alternative being read, for the disjunction being read and, on a
  stack, for every group that is still open around it. \<open>|\<close> closes the current alternative of
  the innermost open disjunction only: it binds weaker than everything but the parentheses.
  Inside a character class the parser keeps the items read and, apart from them, the last one
  as long as a \<open>-\<close> can still make it the lower end of a range. After a \<open>{\<close> it
  keeps the digits read, to put them back as plain characters if no quantifier comes of them.
\<close>

datatype cpend = PNone | PAtom citem | PDash citem

datatype pmode =
    Normal
  | AfterQuant
  | Escape
  | GroupOpen
  | GroupQ
  | GroupLt
  | GroupName string
  | ClassStart
  | InClass bool "citem list" cpend
  | ClassEscape bool "citem list" cpend
  | BraceN string
  | BraceM string string

record pstate =
  stack :: "(grp \<times> re list \<times> re list) list"
  alts :: "re list"
  seq :: "re list"
  names :: "string list"
  mode :: pmode

definition mkSeq :: "re list \<Rightarrow> re" where
  "mkSeq xs = foldr Seq xs Eps"

fun mkDisj :: "re list \<Rightarrow> re" where
  "mkDisj [] = Eps"
| "mkDisj [a] = a"
| "mkDisj (a # b # bs) = Alt a (mkDisj (b # bs))"

fun isAtom :: "re \<Rightarrow> bool" where
  "isAtom (Lit c) = True"
| "isAtom Dot = True"
| "isAtom (Cls k neg) = True"
| "isAtom (Set neg items) = True"
| "isAtom (Grp g a) = True"
| "isAtom r = False"

definition quantify :: "char \<Rightarrow> re \<Rightarrow> re" where
  "quantify c a = (if c = CHR ''?'' then Opt a else if c = CHR ''*'' then Star a else Plus a)"

definition pushAtom :: "re \<Rightarrow> pstate \<Rightarrow> pstate" where
  "pushAtom a st = st\<lparr>seq := seq st @ [a], mode := Normal\<rparr>"

definition pushLits :: "string \<Rightarrow> pstate \<Rightarrow> pstate" where
  "pushLits cs st = st\<lparr>seq := seq st @ map Lit cs, mode := Normal\<rparr>"

definition openGroup :: "grp \<Rightarrow> pstate \<Rightarrow> pstate" where
  "openGroup g st =
     st\<lparr>stack := (g, alts st, seq st) # stack st, alts := [], seq := [], mode := Normal\<rparr>"

definition number :: "string \<Rightarrow> nat" where
  "number ds = foldl (\<lambda>n c. 10 * n + (of_char c - 48)) 0 ds"

definition applyRepeat :: "nat \<Rightarrow> nat option \<Rightarrow> pstate \<Rightarrow> error + pstate" where
  "applyRepeat n mo st =
     (if seq st \<noteq> [] \<and> isAtom (last (seq st)) \<and> (case mo of None \<Rightarrow> True | Some m \<Rightarrow> n \<le> m)
      then Inr (st\<lparr>seq := butlast (seq st) @ [Repeat n mo (last (seq st))], mode := AfterQuant\<rparr>)
      else Inl SyntaxError)"

definition stepNormal :: "pstate \<Rightarrow> char \<Rightarrow> error + pstate" where
  "stepNormal st c =
     (if c = bslash then Inr (st\<lparr>mode := Escape\<rparr>)
      else if c = CHR ''('' then Inr (st\<lparr>mode := GroupOpen\<rparr>)
      else if c = CHR '')'' then
        (case stack st of
           [] \<Rightarrow> Inl SyntaxError
         | (g, as, sq) # rest \<Rightarrow>
             Inr (st\<lparr>stack := rest, alts := as,
                     seq := sq @ [Grp g (mkDisj (alts st @ [mkSeq (seq st)]))],
                     mode := Normal\<rparr>))
      else if c = CHR ''|'' then
        Inr (st\<lparr>alts := alts st @ [mkSeq (seq st)], seq := [], mode := Normal\<rparr>)
      else if c = CHR ''?'' \<or> c = CHR ''*'' \<or> c = CHR ''+'' then
        (if seq st \<noteq> [] \<and> isAtom (last (seq st))
         then Inr (st\<lparr>seq := butlast (seq st) @ [quantify c (last (seq st))],
                      mode := AfterQuant\<rparr>)
         else Inl SyntaxError)
      else if c = CHR ''^'' then Inr (pushAtom Bol st)
      else if c = CHR ''$'' then Inr (pushAtom Eol st)
      else if c = CHR ''.'' then Inr (pushAtom Dot st)
      else if c = CHR ''['' then Inr (st\<lparr>mode := ClassStart\<rparr>)
      else if c = CHR ''{'' then Inr (st\<lparr>mode := BraceN []\<rparr>)
      else Inr (pushAtom (Lit c) st))"

definition stepEscape :: "pstate \<Rightarrow> char \<Rightarrow> error + pstate" where
  "stepEscape st c =
     (if c = CHR ''d'' then Inr (pushAtom (Cls DigitC False) st)
      else if c = CHR ''D'' then Inr (pushAtom (Cls DigitC True) st)
      else if c = CHR ''w'' then Inr (pushAtom (Cls WordC False) st)
      else if c = CHR ''W'' then Inr (pushAtom (Cls WordC True) st)
      else if c = CHR ''s'' then Inr (pushAtom (Cls SpaceC False) st)
      else if c = CHR ''S'' then Inr (pushAtom (Cls SpaceC True) st)
      else if c = CHR ''t'' then Inr (pushAtom (Lit (CHR 0x09)) st)
      else if c = CHR ''n'' then Inr (pushAtom (Lit (CHR 0x0A)) st)
      else if c = CHR ''v'' then Inr (pushAtom (Lit (CHR 0x0B)) st)
      else if c = CHR ''f'' then Inr (pushAtom (Lit (CHR 0x0C)) st)
      else if c = CHR ''r'' then Inr (pushAtom (Lit (CHR 0x0D)) st)
      else if isDigit c \<or> c \<in> set ''bBcxukpP'' then Inl Unsupported
      else Inr (pushAtom (Lit c) st))"

text \<open>
  An atom of a character class, after what is pending: it completes a range, or becomes the
  pending atom itself. A range between two characters must be in order; a range with a class
  escape at one end stands for the two ends and the \<open>-\<close>.
\<close>

fun classAtom :: "citem \<Rightarrow> bool \<Rightarrow> citem list \<Rightarrow> cpend \<Rightarrow> error + pmode" where
  "classAtom b neg items PNone = Inr (InClass neg items (PAtom b))"
| "classAtom b neg items (PAtom a) = Inr (InClass neg (items @ [a]) (PAtom b))"
| "classAtom (CChar hi) neg items (PDash (CChar lo)) =
     (if (of_char lo :: nat) \<le> of_char hi then Inr (InClass neg (items @ [CRange lo hi]) PNone)
      else Inl SyntaxError)"
| "classAtom b neg items (PDash a) = Inr (InClass neg (items @ [a, CChar (CHR ''-''), b]) PNone)"

fun classItems :: "citem list \<Rightarrow> cpend \<Rightarrow> citem list" where
  "classItems items PNone = items"
| "classItems items (PAtom a) = items @ [a]"
| "classItems items (PDash a) = items @ [a, CChar (CHR ''-'')]"

definition setMode :: "pstate \<Rightarrow> error + pmode \<Rightarrow> error + pstate" where
  "setMode st r = (case r of Inl e \<Rightarrow> Inl e | Inr m \<Rightarrow> Inr (st\<lparr>mode := m\<rparr>))"

definition stepClass :: "pstate \<Rightarrow> bool \<Rightarrow> citem list \<Rightarrow> cpend \<Rightarrow> char \<Rightarrow> error + pstate" where
  "stepClass st neg items pend c =
     (if c = CHR '']'' then Inr (pushAtom (Set neg (classItems items pend)) st)
      else if c = bslash then Inr (st\<lparr>mode := ClassEscape neg items pend\<rparr>)
      else if c = CHR ''-'' then
        (case pend of
           PAtom a \<Rightarrow> Inr (st\<lparr>mode := InClass neg items (PDash a)\<rparr>)
         | _ \<Rightarrow> setMode st (classAtom (CChar c) neg items pend))
      else setMode st (classAtom (CChar c) neg items pend))"

definition stepClassEscape ::
  "pstate \<Rightarrow> bool \<Rightarrow> citem list \<Rightarrow> cpend \<Rightarrow> char \<Rightarrow> error + pstate" where
  "stepClassEscape st neg items pend c =
     (if c = CHR ''d'' then setMode st (classAtom (CCls DigitC False) neg items pend)
      else if c = CHR ''D'' then setMode st (classAtom (CCls DigitC True) neg items pend)
      else if c = CHR ''w'' then setMode st (classAtom (CCls WordC False) neg items pend)
      else if c = CHR ''W'' then setMode st (classAtom (CCls WordC True) neg items pend)
      else if c = CHR ''s'' then setMode st (classAtom (CCls SpaceC False) neg items pend)
      else if c = CHR ''S'' then setMode st (classAtom (CCls SpaceC True) neg items pend)
      else if c = CHR ''b'' then setMode st (classAtom (CChar (CHR 0x08)) neg items pend)
      else if c = CHR ''t'' then setMode st (classAtom (CChar (CHR 0x09)) neg items pend)
      else if c = CHR ''n'' then setMode st (classAtom (CChar (CHR 0x0A)) neg items pend)
      else if c = CHR ''v'' then setMode st (classAtom (CChar (CHR 0x0B)) neg items pend)
      else if c = CHR ''f'' then setMode st (classAtom (CChar (CHR 0x0C)) neg items pend)
      else if c = CHR ''r'' then setMode st (classAtom (CChar (CHR 0x0D)) neg items pend)
      else if isDigit c \<or> c \<in> set ''cxukpP'' then Inl Unsupported
      else setMode st (classAtom (CChar c) neg items pend))"

definition step :: "pstate \<Rightarrow> char \<Rightarrow> error + pstate" where
  "step st c =
     (case mode st of
        Normal \<Rightarrow> stepNormal st c
      | AfterQuant \<Rightarrow>
          (if c = CHR ''?'' then Inr (st\<lparr>mode := Normal\<rparr>)
           else if c = CHR ''*'' \<or> c = CHR ''+'' then Inl SyntaxError
           else stepNormal st c)
      | Escape \<Rightarrow> stepEscape st c
      | GroupOpen \<Rightarrow>
          (if c = CHR ''?'' then Inr (st\<lparr>mode := GroupQ\<rparr>)
           else stepNormal (openGroup Capture st) c)
      | GroupQ \<Rightarrow>
          (if c = CHR '':'' then Inr (openGroup NonCapture st)
           else if c = CHR ''='' then Inr (openGroup (LookAhead False) st)
           else if c = CHR ''!'' then Inr (openGroup (LookAhead True) st)
           else if c = CHR ''<'' then Inr (st\<lparr>mode := GroupLt\<rparr>)
           else Inl SyntaxError)
      | GroupLt \<Rightarrow>
          (if c = CHR ''='' \<or> c = CHR ''!'' then Inl Unsupported
           else if isLetter c \<or> c = CHR ''_'' \<or> c = CHR ''$'' then Inr (st\<lparr>mode := GroupName [c]\<rparr>)
           else Inl SyntaxError)
      | GroupName n \<Rightarrow>
          (if c = CHR ''>'' then
             (if n \<in> set (names st) then Inl SyntaxError
              else Inr (openGroup (Named n) (st\<lparr>names := names st @ [n]\<rparr>)))
           else if isWordChar c \<or> c = CHR ''$'' then Inr (st\<lparr>mode := GroupName (n @ [c])\<rparr>)
           else Inl SyntaxError)
      | ClassStart \<Rightarrow>
          (if c = CHR ''^'' then Inr (st\<lparr>mode := InClass True [] PNone\<rparr>)
           else stepClass st False [] PNone c)
      | InClass neg items pend \<Rightarrow> stepClass st neg items pend c
      | ClassEscape neg items pend \<Rightarrow> stepClassEscape st neg items pend c
      | BraceN ds \<Rightarrow>
          (if isDigit c then Inr (st\<lparr>mode := BraceN (ds @ [c])\<rparr>)
           else if c = CHR '','' \<and> ds \<noteq> [] then Inr (st\<lparr>mode := BraceM ds []\<rparr>)
           else if c = CHR ''}'' \<and> ds \<noteq> [] then applyRepeat (number ds) (Some (number ds)) st
           else stepNormal (pushLits (CHR ''{'' # ds) st) c)
      | BraceM ds ds' \<Rightarrow>
          (if isDigit c then Inr (st\<lparr>mode := BraceM ds (ds' @ [c])\<rparr>)
           else if c = CHR ''}'' then
             applyRepeat (number ds) (if ds' = [] then None else Some (number ds')) st
           else stepNormal (pushLits (CHR ''{'' # ds @ CHR '','' # ds') st) c))"

fun run :: "pstate \<Rightarrow> string \<Rightarrow> error + pstate" where
  "run st [] = Inr st"
| "run st (c # cs) = (case step st c of Inl e \<Rightarrow> Inl e | Inr st' \<Rightarrow> run st' cs)"

text \<open>
  At the end of the pattern no group, class or escape may be open; a \<open>{\<close> that has not become
  a quantifier stands for itself, with the characters after it.
\<close>

definition finish :: "pstate \<Rightarrow> error + re" where
  "finish st =
     (if stack st \<noteq> [] then Inl SyntaxError
      else case mode st of
        Normal \<Rightarrow> Inr (mkDisj (alts st @ [mkSeq (seq st)]))
      | AfterQuant \<Rightarrow> Inr (mkDisj (alts st @ [mkSeq (seq st)]))
      | BraceN ds \<Rightarrow> Inr (mkDisj (alts st @ [mkSeq (seq st @ map Lit (CHR ''{'' # ds))]))
      | BraceM ds ds' \<Rightarrow>
          Inr (mkDisj (alts st @ [mkSeq (seq st @ map Lit (CHR ''{'' # ds @ CHR '','' # ds'))]))
      | _ \<Rightarrow> Inl SyntaxError)"

definition initState :: pstate where
  "initState = \<lparr>stack = [], alts = [], seq = [], names = [], mode = Normal\<rparr>"

definition parse :: "string \<Rightarrow> error + re" where
  "parse s = (case run initState s of Inl e \<Rightarrow> Inl e | Inr st \<Rightarrow> finish st)"

subsection \<open>The \<open>RegExp\<close> object\<close>

text \<open>
  \<open>source\<close> is the pattern text in which every \<open>/\<close> that is neither escaped nor inside a
  character class, and every line terminator, is written as an escape (and \<open>(?:)\<close> for the
  empty pattern); \<open>ast\<close> is what the engine matches with. A \<open>RegExp\<close> made by the
  registration code carries no flag, so \<open>test\<close> has no state: it looks for a match starting
  at any index of the string.
\<close>

record regexp =
  source :: string
  ast :: re

definition escapeChar :: "bool \<Rightarrow> char \<Rightarrow> string" where
  "escapeChar inClass c =
     (if c = CHR ''/'' \<and> \<not> inClass then [bslash, c]
      else if c = CHR 0x0A then [bslash, CHR ''n'']
      else if c = CHR 0x0D then [bslash, CHR ''r'']
      else [c])"

definition classAfter :: "bool \<Rightarrow> char \<Rightarrow> bool" where
  "classAfter inClass c = (if c = CHR ''['' then True else if c = CHR '']'' then False else inClass)"

fun escapeFrom :: "bool \<Rightarrow> string \<Rightarrow> string" where
  "escapeFrom inClass [] = []"
| "escapeFrom inClass [c] = escapeChar inClass c"
| "escapeFrom inClass (c # d # cs) =
     (if c = bslash then
        (if isLineTerminator d then escapeFrom inClass (d # cs)
         else c # d # escapeFrom inClass cs)
      else escapeChar inClass c @ escapeFrom (classAfter inClass c) (d # cs))"

definition escapeSource :: "string \<Rightarrow> string" where
  "escapeSource s = (if s = [] then ''(?:)'' else escapeFrom False s)"

definition RegExp :: "string \<Rightarrow> error + regexp" where
  "RegExp s =
     (case parse s of
        Inl e \<Rightarrow> Inl e
      | Inr r \<Rightarrow> Inr \<lparr>source = escapeSource s, ast = r\<rparr>)"

definition test :: "regexp \<Rightarrow> string \<Rightarrow> bool" where
  "test rx u = list_ex (\<lambda>i. ends (ast rx) (i, drop i u) \<noteq> []) [0..<Suc (length u)]"

section \<open>Routes, routers and the application\<close>

text \<open>
  Middlewares, error middlewares and request listeners are function objects. The lists hold
  references to them, and \<open>includes\<close> compares references; what a referenced function does
  when it is called is looked up in a table of functions (see \<open>bodies\<close> and \<open>funs\<close>
  below). Routes and
  routers are objects too; the model holds them by value, an application with its routers and
  a router with its routes as they are when the operation at hand starts. (\<open>useRouter\<close>, which
  compares routers by reference, is left out: the listener takes the list of routers as it is.)
\<close>

type_synonym ref = nat

record level =
  middlewares :: "ref list"
  errMiddlewares :: "ref list"

record route = level +
  path :: regexp
  "method" :: string
  listener :: ref

text \<open>\<open>routes\<close> is a \<open>Map\<close>: its entries are kept in the order in which their keys were first set.\<close>

record router = level +
  routes :: "(string \<times> route) list"

record simpress = level +
  routers :: "router list"

definition Route :: "regexp \<Rightarrow> string \<Rightarrow> ref \<Rightarrow> route" where
  "Route p m l = \<lparr>middlewares = [], errMiddlewares = [], path = p, method = m, listener = l\<rparr>"

definition Router :: router where
  "Router = \<lparr>middlewares = [], errMiddlewares = [], routes = []\<rparr>"

definition Simpress :: simpress where
  "Simpress = \<lparr>middlewares = [], errMiddlewares = [], routers = [Router]\<rparr>"

definition use :: "ref \<Rightarrow> 'a level_scheme \<Rightarrow> 'a level_scheme" where
  "use middleware l =
     (if middleware \<notin> set (middlewares l)
      then l\<lparr>middlewares := middlewares l @ [middleware]\<rparr> else l)"

definition useForError :: "ref \<Rightarrow> 'a level_scheme \<Rightarrow> 'a level_scheme" where
  "useForError middleware l =
     (if middleware \<notin> set (errMiddlewares l)
      then l\<lparr>errMiddlewares := errMiddlewares l @ [middleware]\<rparr> else l)"

fun mapSet :: "'k \<Rightarrow> 'v \<Rightarrow> ('k \<times> 'v) list \<Rightarrow> ('k \<times> 'v) list" where
  "mapSet k v [] = [(k, v)]"
| "mapSet k v ((k', v') # kvs) = (if k' = k then (k, v) # kvs else (k', v') # mapSet k v kvs)"

definition mapGet :: "'k \<Rightarrow> ('k \<times> 'v) list \<Rightarrow> 'v option" where
  "mapGet k kvs = map_of kvs k"

text \<open>The first argument of \<open>route\<close> and \<open>findRoute\<close> is a string or a \<open>RegExp\<close>.\<close>

datatype pathSpec = PStr string | PRegExp regexp

text \<open>\<open>if (typeof path === 'string') path = new RegExp('^' + path + '\\/?$|\\?')\<close>\<close>

definition pathPattern :: "string \<Rightarrow> string" where
  "pathPattern p =
     ''^'' @ p @ [bslash, CHR ''/'', CHR ''?'', CHR ''$'', CHR ''|'', bslash, CHR ''?'']"

fun toRegExp :: "pathSpec \<Rightarrow> error + regexp" where
  "toRegExp (PStr p) = RegExp (pathPattern p)"
| "toRegExp (PRegExp r) = Inr r"

definition routeKey :: "string \<Rightarrow> regexp \<Rightarrow> string" where
  "routeKey m p = m @ ''|'' @ source p"

definition Router_route :: "pathSpec \<Rightarrow> string \<Rightarrow> ref \<Rightarrow> router \<Rightarrow> error + (route \<times> router)" where
  "Router_route pth m l this =
     (case toRegExp pth of
        Inl e \<Rightarrow> Inl e
      | Inr p \<Rightarrow>
          (let r = Route p m l
           in Inr (r, this\<lparr>routes := mapSet (routeKey m p) r (routes this)\<rparr>)))"

definition Router_findRoute :: "pathSpec \<Rightarrow> string \<Rightarrow> router \<Rightarrow> error + route option" where
  "Router_findRoute pth m this =
     (case toRegExp pth of
        Inl e \<Rightarrow> Inl e
      | Inr p \<Rightarrow> Inr (mapGet (routeKey m p) (routes this)))"

text \<open>
  \<open>Simpress.route\<close> writes into \<open>this._routers[0]\<close>. The constructor puts a router there and
  nothing removes one; on an empty list the property access on \<open>undefined\<close> is a \<open>TypeError\<close>.
\<close>

definition Simpress_route :: "pathSpec \<Rightarrow> string \<Rightarrow> ref \<Rightarrow> simpress \<Rightarrow> error + (route \<times> simpress)" where
  "Simpress_route pth m l this =
     (case toRegExp pth of
        Inl e \<Rightarrow> Inl e
      | Inr p \<Rightarrow>
          (let r = Route p m l
           in case routers this of
                [] \<Rightarrow> Inl TypeError
              | r0 # rs \<Rightarrow>
                  Inr (r, this\<lparr>routers := r0\<lparr>routes := mapSet (routeKey m p) r (routes r0)\<rparr> # rs\<rparr>)))"

fun findInRouters :: "string \<Rightarrow> router list \<Rightarrow> route option" where
  "findInRouters k [] = None"
| "findInRouters k (r # rs) =
     (case mapGet k (routes r) of Some x \<Rightarrow> Some x | None \<Rightarrow> findInRouters k rs)"

definition Simpress_findRoute :: "pathSpec \<Rightarrow> string \<Rightarrow> simpress \<Rightarrow> error + route option" where
  "Simpress_findRoute pth m this =
     (case toRegExp pth of
        Inl e \<Rightarrow> Inl e
      | Inr p \<Rightarrow> Inr (findInRouters (routeKey m p) (routers this)))"

section \<open>The request listener\<close>

text \<open>
  What the listener reads and writes of the request and the response of the \<open>http\<close> module.
  \<open>props\<close> stands for whatever else the middlewares keep on the request (body, parameters).
\<close>

record 'x request =
  url :: string
  "method" :: string
  pathRegex :: "regexp option"
  props :: 'x

record response =
  statusCode :: nat
  headersSent :: bool
  finished :: bool
  chunks :: "string list"

definition writeHead :: "nat \<Rightarrow> response \<Rightarrow> jsval + response" where
  "writeHead code res =
     (if headersSent res then Inl (JError ''ERR_HTTP_HEADERS_SENT'')
      else Inr (res\<lparr>statusCode := code, headersSent := True\<rparr>))"

definition endResponse :: "response \<Rightarrow> response" where
  "endResponse res = res\<lparr>headersSent := True, finished := True\<rparr>"

text \<open>
  What the executor gets from \<open>await new Promise(resolve => middleware(req, res, resolve))\<close>,
  next to what the call has done to the request and the response. The promise is fulfilled with
  a value and the \<open>await\<close> yields it (\<open>Next\<close>); or the promise is rejected, the \<open>await\<close>
  throws and the listener's own promise is rejected (\<open>Throw\<close>); or the promise is never
  settled and the \<open>await\<close> never returns (\<open>Never\<close>). The value a promise is fulfilled with
  is never a thenable. How the promise comes to be settled by what the function called does
  with its continuation is \<open>newPromise\<close> below.
\<close>

datatype signal = Next jsval | Never | Throw jsval

type_synonym 'x middleware = "'x request \<Rightarrow> response \<Rightarrow> signal \<times> 'x request \<times> response"

type_synonym 'x errMiddleware =
  "jsval \<Rightarrow> 'x request \<Rightarrow> response \<Rightarrow> signal \<times> 'x request \<times> response"

text \<open>A request listener returns (\<open>None\<close>) or throws; what it returns is not looked at.\<close>

type_synonym 'x requestListener =
  "'x request \<Rightarrow> response \<Rightarrow> jsval option \<times> 'x request \<times> response"

record 'x funs =
  mwFun :: "ref \<Rightarrow> 'x middleware"
  errFun :: "ref \<Rightarrow> 'x errMiddleware"
  lisFun :: "ref \<Rightarrow> 'x requestListener"

text \<open>
  What the function called does with its continuation, as the promise around the call sees it.
  The promise is settled by the first thing that happens: the first call of the continuation
  (later calls do nothing to a promise already resolved), a throw before any call of it, or
  neither. The continuation is the promise's \<open>resolve\<close>. Handed a value that is not a
  thenable, it fulfils the promise with that value. Handed a thenable (a promise, or any other
  object with a \<open>then\<close> method), it makes the promise follow the thenable: the promise is
  fulfilled or rejected as the thenable is, and never settled if the thenable never is. Of a
  thenable the model keeps what following it comes to; the value it fulfils with is not a
  thenable, since a thenable in that place is followed in its turn.
\<close>

datatype settling = Fulfils jsval | Rejects jsval | Pends

datatype nextArg = Plain jsval | Thenable settling

fun resolve :: "nextArg \<Rightarrow> signal" where
  "resolve (Plain v) = Next v"
| "resolve (Thenable (Fulfils v)) = Next v"
| "resolve (Thenable (Rejects x)) = Throw x"
| "resolve (Thenable Pends) = Never"

datatype call = CallsNext nextArg | NeverCalls | Throws jsval

text \<open>\<open>new Promise(resolve => middleware(req, res, resolve))\<close>, awaited.\<close>

fun newPromise :: "call \<Rightarrow> signal" where
  "newPromise (CallsNext a) = resolve a"
| "newPromise NeverCalls = Never"
| "newPromise (Throws x) = Throw x"

text \<open>
  The functions as they are written, each with what it does with its continuation, and the
  table of the awaited calls that the listener works with.
\<close>

record 'x bodies =
  mwBody :: "ref \<Rightarrow> 'x request \<Rightarrow> response \<Rightarrow> call \<times> 'x request \<times> response"
  errBody :: "ref \<Rightarrow> jsval \<Rightarrow> 'x request \<Rightarrow> response \<Rightarrow> call \<times> 'x request \<times> response"
  lisBody :: "ref \<Rightarrow> 'x requestListener"

definition awaited :: "'x bodies \<Rightarrow> 'x funs" where
  "awaited B =
     \<lparr>mwFun = (\<lambda>m req res. case mwBody B m req res of (c, rq, rs) \<Rightarrow> (newPromise c, rq, rs)),
      errFun = (\<lambda>e err req res.
                  case errBody B e err req res of (c, rq, rs) \<Rightarrow> (newPromise c, rq, rs)),
      lisFun = lisBody B\<rparr>"

text \<open>
  The listener is followed by a log of the calls it makes, in the order it makes them, and by
  the way it ends. The log is not part of the program.
\<close>

datatype tier = AppTier | RouterTier | RouteTier

datatype event =
    MwRun tier ref signal
  | ErrRun tier ref jsval signal
  | HandlerRun ref

datatype outcome =
    Handled
  | Resolved
  | Unrecovered jsval
  | NotFound
  | Stalled
  | Rejected jsval

type_synonym 'x result = "outcome \<times> event list \<times> 'x request \<times> response"

text \<open>\<open>for (const errMiddleware of level.errMiddlewares) { ... } return;\<close>\<close>

fun runErrMiddlewares ::
  "'x funs \<Rightarrow> tier \<Rightarrow> ref list \<Rightarrow> jsval \<Rightarrow> 'x request \<Rightarrow> response \<Rightarrow> 'x result" where
  "runErrMiddlewares F t [] err req res = (Unrecovered err, [], req, res)"
| "runErrMiddlewares F t (e # es) err req res =
     (case errFun F e err req res of
        (Never, req', res') \<Rightarrow> (Stalled, [ErrRun t e err Never], req', res')
      | (Throw x, req', res') \<Rightarrow> (Rejected x, [ErrRun t e err (Throw x)], req', res')
      | (Next err', req', res') \<Rightarrow>
          if err' = Undefined then (Resolved, [ErrRun t e err (Next err')], req', res')
          else (case runErrMiddlewares F t es err' req' res' of
                  (out, tr, rq, rs) \<Rightarrow> (out, ErrRun t e err (Next err') # tr, rq, rs)))"

text \<open>
  \<open>for (const middleware of level.middlewares) { ... }\<close>: \<open>None\<close> when the loop runs to its
  end, \<open>Some\<close> when the listener returns from inside it.
\<close>

fun runMiddlewares ::
  "'x funs \<Rightarrow> tier \<Rightarrow> ref list \<Rightarrow> ref list \<Rightarrow> 'x request \<Rightarrow> response
     \<Rightarrow> outcome option \<times> event list \<times> 'x request \<times> response" where
  "runMiddlewares F t errs [] req res = (None, [], req, res)"
| "runMiddlewares F t errs (m # ms) req res =
     (case mwFun F m req res of
        (Never, req', res') \<Rightarrow> (Some Stalled, [MwRun t m Never], req', res')
      | (Throw x, req', res') \<Rightarrow> (Some (Rejected x), [MwRun t m (Throw x)], req', res')
      | (Next err, req', res') \<Rightarrow>
          if err \<noteq> Undefined then
            (case runErrMiddlewares F t errs err req' res' of
               (out, tr, rq, rs) \<Rightarrow> (Some out, MwRun t m (Next err) # tr, rq, rs))
          else
            (case runMiddlewares F t errs ms req' res' of
               (out, tr, rq, rs) \<Rightarrow> (out, MwRun t m (Next err) # tr, rq, rs)))"

text \<open>\<open>for (const level of [this, router, route]) { ... }\<close>\<close>

fun runLevels ::
  "'x funs \<Rightarrow> (tier \<times> ref list \<times> ref list) list \<Rightarrow> 'x request \<Rightarrow> response
     \<Rightarrow> outcome option \<times> event list \<times> 'x request \<times> response" where
  "runLevels F [] req res = (None, [], req, res)"
| "runLevels F ((t, ms, errs) # ls) req res =
     (case runMiddlewares F t errs ms req res of
        (Some out, tr, rq, rs) \<Rightarrow> (Some out, tr, rq, rs)
      | (None, tr, rq, rs) \<Rightarrow>
          (case runLevels F ls rq rs of
             (out, tr', rq', rs') \<Rightarrow> (out, tr @ tr', rq', rs')))"

text \<open>The body of the \<open>if\<close>: what the listener does with the route it has found.\<close>

definition dispatch ::
  "'x funs \<Rightarrow> simpress \<Rightarrow> router \<Rightarrow> route \<Rightarrow> 'x request \<Rightarrow> response \<Rightarrow> 'x result" where
  "dispatch F this router route req res =
     (case runLevels F
             [(AppTier, middlewares this, errMiddlewares this),
              (RouterTier, middlewares router, errMiddlewares router),
              (RouteTier, middlewares route, errMiddlewares route)]
             (req\<lparr>pathRegex := Some (path route)\<rparr>) res of
        (Some out, tr, rq, rs) \<Rightarrow> (out, tr, rq, rs)
      | (None, tr, rq, rs) \<Rightarrow>
          (case lisFun F (listener route) rq rs of
             (None, rq', rs') \<Rightarrow> (Handled, tr @ [HandlerRun (listener route)], rq', rs')
           | (Some x, rq', rs') \<Rightarrow> (Rejected x, tr @ [HandlerRun (listener route)], rq', rs')))"

definition matches :: "route \<Rightarrow> 'x request \<Rightarrow> bool" where
  "matches route req = (test (path route) (url req) \<and> request.method req = route.method route)"

text \<open>\<open>for (const [_, route] of router.routes)\<close>: \<open>None\<close> when no route of the router matches.\<close>

fun scanRoutes ::
  "'x funs \<Rightarrow> simpress \<Rightarrow> router \<Rightarrow> (string \<times> route) list \<Rightarrow> 'x request \<Rightarrow> response
     \<Rightarrow> 'x result option" where
  "scanRoutes F this router [] req res = None"
| "scanRoutes F this router ((k, route) # rest) req res =
     (if matches route req then Some (dispatch F this router route req res)
      else scanRoutes F this router rest req res)"

text \<open>\<open>for (const router of this._routers)\<close>\<close>

fun scanRouters ::
  "'x funs \<Rightarrow> simpress \<Rightarrow> router list \<Rightarrow> 'x request \<Rightarrow> response \<Rightarrow> 'x result option" where
  "scanRouters F this [] req res = None"
| "scanRouters F this (router # rest) req res =
     (case scanRoutes F this router (routes router) req res of
        Some r \<Rightarrow> Some r
      | None \<Rightarrow> scanRouters F this rest req res)"

definition toListener :: "'x funs \<Rightarrow> simpress \<Rightarrow> 'x request \<Rightarrow> response \<Rightarrow> 'x result" where
  "toListener F this req res =
     (case scanRouters F this (routers this) req res of
        Some r \<Rightarrow> r
      | None \<Rightarrow>
          (case writeHead 404 res of
             Inl e \<Rightarrow> (Rejected e, [], req, res)
           | Inr res' \<Rightarrow> (NotFound, [], req, endResponse res')))"

section \<open>Notions used to state the properties\<close>

text \<open>The route the listener dispatches to: the first match, routers in order, routes in order.\<close>

fun matchIn :: "(string \<times> route) list \<Rightarrow> 'x request \<Rightarrow> route option" where
  "matchIn [] req = None"
| "matchIn ((k, route) # rest) req = (if matches route req then Some route else matchIn rest req)"

fun findMatch :: "router list \<Rightarrow> 'x request \<Rightarrow> (router \<times> route) option" where
  "findMatch [] req = None"
| "findMatch (router # rest) req =
     (case matchIn (routes router) req of
        Some route \<Rightarrow> Some (router, route)
      | None \<Rightarrow> findMatch rest req)"

text \<open>The middlewares of the three tiers, in the order application, router, route.\<close>

definition pipeline :: "simpress \<Rightarrow> router \<Rightarrow> route \<Rightarrow> (tier \<times> ref) list" where
  "pipeline this router route =
     map (Pair AppTier) (middlewares this) @
     map (Pair RouterTier) (middlewares router) @
     map (Pair RouteTier) (middlewares route)"

fun tierErrs :: "simpress \<Rightarrow> router \<Rightarrow> route \<Rightarrow> tier \<Rightarrow> ref list" where
  "tierErrs this router route AppTier = errMiddlewares this"
| "tierErrs this router route RouterTier = errMiddlewares router"
| "tierErrs this router route RouteTier = errMiddlewares route"

definition passed :: "tier \<times> ref \<Rightarrow> event" where
  "passed s = MwRun (fst s) (snd s) (Next Undefined)"

fun mwStages :: "event list \<Rightarrow> (tier \<times> ref) list" where
  "mwStages [] = []"
| "mwStages (MwRun t m s # tr) = (t, m) # mwStages tr"
| "mwStages (e # tr) = mwStages tr"

fun isHandlerRun :: "event \<Rightarrow> bool" where
  "isHandlerRun (HandlerRun h) = True"
| "isHandlerRun e = False"

fun isMwRun :: "event \<Rightarrow> bool" where
  "isMwRun (MwRun t m s) = True"
| "isMwRun e = False"

section \<open>The shape of a log\<close>

text \<open>
  \<open>errTrace t es v out tr\<close>: \<open>tr\<close> is a log of the error middlewares \<open>es\<close> of tier \<open>t\<close> called
  one after the other, the first with the value \<open>v\<close> and each later one with the value its
  predecessor passed on, until one resolves the error, stalls or throws, or the list is at its
  end; \<open>out\<close> says which.
\<close>

inductive errTrace :: "tier \<Rightarrow> ref list \<Rightarrow> jsval \<Rightarrow> outcome \<Rightarrow> event list \<Rightarrow> bool" where
  exhausted: "errTrace t [] v (Unrecovered v) []"
| stalled: "errTrace t (e # es) v Stalled [ErrRun t e v Never]"
| threw: "errTrace t (e # es) v (Rejected x) [ErrRun t e v (Throw x)]"
| resolved: "errTrace t (e # es) v Resolved [ErrRun t e v (Next Undefined)]"
| passedOn: "v' \<noteq> Undefined \<Longrightarrow> errTrace t es v' out tr
     \<Longrightarrow> errTrace t (e # es) v out (ErrRun t e v (Next v') # tr)"

text \<open>
  \<open>pipeTrace E P out tr\<close>: \<open>tr\<close> is a log of the middlewares \<open>P\<close> called one after the other
  for as long as each passes \<open>undefined\<close> on, the error middlewares \<open>E t\<close> of its tier taking
  over from the first one that does not; \<open>out\<close> is \<open>None\<close> when all of \<open>P\<close> passed.
\<close>

inductive pipeTrace ::
  "(tier \<Rightarrow> ref list) \<Rightarrow> (tier \<times> ref) list \<Rightarrow> outcome option \<Rightarrow> event list \<Rightarrow> bool" where
  completed: "pipeTrace E [] None []"
| mwStalled: "pipeTrace E ((t, m) # P) (Some Stalled) [MwRun t m Never]"
| mwThrew: "pipeTrace E ((t, m) # P) (Some (Rejected x)) [MwRun t m (Throw x)]"
| failed: "v \<noteq> Undefined \<Longrightarrow> errTrace t (E t) v out tr
     \<Longrightarrow> pipeTrace E ((t, m) # P) (Some out) (MwRun t m (Next v) # tr)"
| continued: "pipeTrace E P out tr
     \<Longrightarrow> pipeTrace E ((t, m) # P) out (MwRun t m (Next Undefined) # tr)"

section \<open>Notions used to state the properties of path patterns\<close>

text \<open>The syntax characters of the pattern language: every other character stands for itself.\<close>

definition isSyntaxChar :: "char \<Rightarrow> bool" where
  "isSyntaxChar c = (c = bslash \<or> c \<in> set ''^$.*+?()[]{}|'')"

text \<open>A route registered from the path specification would be tested true on the string.\<close>

definition accepts :: "pathSpec \<Rightarrow> string \<Rightarrow> bool" where
  "accepts pth u = (case toRegExp pth of Inl e \<Rightarrow> False | Inr r \<Rightarrow> test r u)"

text \<open>
  The expression that a path without syntax characters is compiled to: the path, an optional
  \<open>/\<close> and the end of the string, all from the start of the string; or a \<open>?\<close> anywhere.
\<close>

definition literalPath :: "string \<Rightarrow> re" where
  "literalPath p = Alt (mkSeq (Bol # map Lit p @ [Opt (Lit (CHR ''/'')), Eol]))
                       (mkSeq [Lit (CHR ''?'')])"

section \<open>An application to run the listener on\<close>

text \<open>
  One route \<open>GET /\<close> in one router, a middleware at each of the three tiers, two error
  middlewares at the application and one at each other tier, and tables of awaited calls in
  which every middleware comes to the signal it is told to.
\<close>

definition exPath :: regexp where
  "exPath = \<lparr>source = [CHR ''^'', bslash, CHR ''/'', CHR ''$''],
             ast = Seq Bol (Seq (Lit CHR ''/'') (Seq Eol Eps))\<rparr>"

definition exRoute :: route where
  "exRoute = useForError 13 (use 3 (Route exPath ''GET'' 9))"

definition exRouter :: router where
  "exRouter = useForError 12 (use 2 (Router\<lparr>routes := [(routeKey ''GET'' exPath, exRoute)]\<rparr>))"

definition exApp :: simpress where
  "exApp = useForError 21 (useForError 11 (use 1 (Simpress\<lparr>routers := [exRouter]\<rparr>)))"

definition exReq :: "unit request" where
  "exReq = \<lparr>url = ''/'', method = ''GET'', pathRegex = None, props = ()\<rparr>"

definition exRes :: response where
  "exRes = \<lparr>statusCode = 200, headersSent = False, finished = False, chunks = []\<rparr>"

definition exFuns :: "(ref \<Rightarrow> signal) \<Rightarrow> (ref \<Rightarrow> signal) \<Rightarrow> unit funs" where
  "exFuns sm se =
     \<lparr>mwFun = (\<lambda>m req res. (sm m, req, res)),
      errFun = (\<lambda>e v req res. (se e, req, res\<lparr>statusCode := 400\<rparr>)),
      lisFun = (\<lambda>l req res. (None, req, res\<lparr>statusCode := 200, headersSent := True, finished := True, chunks := [''ok'']\<rparr>))\<rparr>"

text \<open>The same functions as they are written: each hands its continuation what it is told to.\<close>

definition exBodies :: "(ref \<Rightarrow> call) \<Rightarrow> (ref \<Rightarrow> call) \<Rightarrow> unit bodies" where
  "exBodies cm ce =
     \<lparr>mwBody = (\<lambda>m req res. (cm m, req, res)),
      errBody = (\<lambda>e v req res. (ce e, req, res\<lparr>statusCode := 400\<rparr>)),
      lisBody = (\<lambda>l req res. (None, req, res\<lparr>statusCode := 200, headersSent := True, finished := True, chunks := [''ok'']\<rparr>))\<rparr>"

text \<open>Nothing has been written to the response.\<close>

definition unwritten :: "response \<Rightarrow> bool" where
  "unwritten r = (\<not> headersSent r \<and> \<not> finished r \<and> chunks r = [])"

text \<open>The pattern of the path \<open>/echo\<close>.\<close>

definition exEchoPath :: regexp where
  "exEchoPath = \<lparr>source = escapeSource (pathPattern ''/echo''), ast = literalPath ''/echo''\<rparr>"

text \<open>
  The pattern of the path \<open>/b\<close>; the router of the application after \<open>POST /b\<close> has been
  registered with it; and the same router after its route \<open>GET /\<close> has been registered anew,
  with another listener.
\<close>

definition exPathB :: regexp where
  "exPathB = \<lparr>source = escapeSource (pathPattern ''/b''), ast = literalPath ''/b''\<rparr>"

definition exRouterB :: router where
  "exRouterB =
     exRouter\<lparr>routes := routes exRouter @ [(routeKey ''POST'' exPathB, Route exPathB ''POST'' 2)]\<rparr>"

definition exRouter5 :: router where
  "exRouter5 = exRouter\<lparr>routes := [(routeKey ''GET'' exPath, Route exPath ''GET'' 5)]\<rparr>"

section \<open>Lemmas about the listener\<close>

lemma runErrMiddlewares_trace:
  "runErrMiddlewares F t es v req res = (out, tr, rq, rs) \<Longrightarrow> errTrace t es v out tr"
proof (induction es arbitrary: v req res out tr rq rs)
  case Nil
  then show ?case by (auto intro: errTrace.intros)
next
  case (Cons e es)
  then show ?case
    by (auto split: prod.splits signal.splits if_splits intro: errTrace.intros)
qed

lemma pipeTrace_passed:
  "pipeTrace E P out tr \<Longrightarrow> pipeTrace E (map (Pair t) ms @ P) out (map passed (map (Pair t) ms) @ tr)"
  by (induction ms) (auto simp: passed_def intro: pipeTrace.intros)

lemma runMiddlewares_trace:
  "runMiddlewares F t errs ms req res = (out, tr, rq, rs) \<Longrightarrow> errs = E t \<Longrightarrow>
     (case out of
        None \<Rightarrow> tr = map passed (map (Pair t) ms)
      | Some x \<Rightarrow> pipeTrace E (map (Pair t) ms @ P) out tr)"
proof (induction ms arbitrary: req res out tr rq rs)
  case Nil
  then show ?case by auto
next
  case (Cons m ms)
  then show ?case
    by (fastforce simp: passed_def split: prod.splits signal.splits if_splits option.splits
          intro: pipeTrace.intros dest: runErrMiddlewares_trace)
qed

lemma runLevels_trace:
  "runLevels F ls req res = (out, tr, rq, rs) \<Longrightarrow> \<forall>(t, ms, errs)\<in>set ls. errs = E t \<Longrightarrow>
     pipeTrace E (concat (map (\<lambda>(t, ms, errs). map (Pair t) ms) ls)) out tr"
proof (induction ls arbitrary: req res out tr rq rs)
  case Nil
  then show ?case by (auto intro: pipeTrace.intros)
next
  case (Cons l ls)
  obtain t ms errs where l: "l = (t, ms, errs)" by (cases l)
  with Cons.prems have errs: "errs = E t" by simp
  obtain o1 tr1 rq1 rs1 where r1: "runMiddlewares F t (E t) ms req res = (o1, tr1, rq1, rs1)"
    by (cases "runMiddlewares F t (E t) ms req res")
  show ?case
  proof (cases o1)
    case None
    obtain o2 tr2 rq2 rs2 where r2: "runLevels F ls rq1 rs1 = (o2, tr2, rq2, rs2)"
      by (cases "runLevels F ls rq1 rs1")
    from Cons.prems l errs r1 None r2 have eq: "out = o2" "tr = tr1 @ tr2" by auto
    from runMiddlewares_trace[where E=E and P="[]", OF r1] None have tr1: "tr1 = map passed (map (Pair t) ms)" by simp
    from Cons.IH[OF r2] Cons.prems(2)
    have "pipeTrace E (concat (map (\<lambda>(t, ms, errs). map (Pair t) ms) ls)) o2 tr2" by simp
    from pipeTrace_passed[OF this, of t ms] show ?thesis
      using eq tr1 l by simp
  next
    case (Some x)
    from Cons.prems l errs r1 Some have eq: "out = o1" "tr = tr1" by auto
    from runMiddlewares_trace[where E=E and P="concat (map (\<lambda>(t, ms, errs). map (Pair t) ms) ls)", OF r1] Some
    show ?thesis using eq l by simp
  qed
qed

lemma scanRoutes_matchIn:
  "scanRoutes F this router kvs req res =
     map_option (\<lambda>route. dispatch F this router route req res) (matchIn kvs req)"
  by (induction kvs) auto

lemma scanRouters_findMatch:
  "scanRouters F this rs req res =
     map_option (\<lambda>(router, route). dispatch F this router route req res) (findMatch rs req)"
  by (induction rs) (auto simp: scanRoutes_matchIn split: option.splits)

lemma toListener_matched:
  "findMatch (routers this) req = Some (router, route) \<Longrightarrow>
     toListener F this req res = dispatch F this router route req res"
  by (simp add: toListener_def scanRouters_findMatch)

lemma matchIn_None: "(matchIn kvs req = None) = (\<forall>kr\<in>set kvs. \<not> matches (snd kr) req)"
  by (induction kvs req rule: matchIn.induct) auto

lemma matchIn_Some: "matchIn kvs req = Some r \<Longrightarrow> \<exists>kr\<in>set kvs. matches (snd kr) req"
  using matchIn_None[of kvs req] by auto

lemma findMatch_None:
  "(findMatch rs req = None) = (\<forall>router\<in>set rs. \<forall>kr\<in>set (routes router). \<not> matches (snd kr) req)"
  by (induction rs) (auto simp: matchIn_None dest: matchIn_Some split: option.splits)

lemma toListener_unmatched:
  "findMatch (routers this) req = None \<Longrightarrow> toListener F this req res = (case writeHead 404 res of
             Inl e \<Rightarrow> (Rejected e, [], req, res)
           | Inr res' \<Rightarrow> (NotFound, [], req, endResponse res'))"
  by (simp add: toListener_def scanRouters_findMatch)

lemma dispatch_trace:
  assumes "dispatch F this router route req res = (out, tr, rq, rs)"
  shows "(pipeTrace (tierErrs this router route) (pipeline this router route) None
            (butlast tr) \<and> tr \<noteq> [] \<and> last tr = HandlerRun (listener route) \<and>
          (out = Handled \<or> (\<exists>x. out = Rejected x)))
       \<or> pipeTrace (tierErrs this router route) (pipeline this router route) (Some out) tr"
proof -
  let ?ls = "[(AppTier, middlewares this, errMiddlewares this),
              (RouterTier, middlewares router, errMiddlewares router),
              (RouteTier, middlewares route, errMiddlewares route)]"
  obtain o1 tr1 rq1 rs1 where
    r: "runLevels F ?ls (req\<lparr>pathRegex := Some (path route)\<rparr>) res = (o1, tr1, rq1, rs1)"
    by (cases "runLevels F ?ls (req\<lparr>pathRegex := Some (path route)\<rparr>) res")
  have "pipeTrace (tierErrs this router route)
          (concat (map (\<lambda>(t, ms, errs). map (Pair t) ms) ?ls)) o1 tr1"
    by (rule runLevels_trace[OF r]) simp
  then have p: "pipeTrace (tierErrs this router route) (pipeline this router route) o1 tr1"
    by (simp add: pipeline_def)
  from assms have d:
    "(case (o1, tr1, rq1, rs1) of
        (Some out, tr, rq, rs) \<Rightarrow> (out, tr, rq, rs)
      | (None, tr, rq, rs) \<Rightarrow>
          (case lisFun F (listener route) rq rs of
             (None, rq', rs') \<Rightarrow> (Handled, tr @ [HandlerRun (listener route)], rq', rs')
           | (Some x, rq', rs') \<Rightarrow> (Rejected x, tr @ [HandlerRun (listener route)], rq', rs')))
       = (out, tr, rq, rs)"
    unfolding dispatch_def r .
  show ?thesis
  proof (cases o1)
    case None
    with d p show ?thesis
      by (auto split: prod.splits option.splits)
  next
    case (Some x)
    with d p show ?thesis
      by auto
  qed
qed

lemma errTrace_events: "errTrace t es v out tr \<Longrightarrow> e \<in> set tr \<Longrightarrow> \<exists>em i s. e = ErrRun t em i s"
  by (induction rule: errTrace.induct) auto

lemma errTrace_mwStages: "errTrace t es v out tr \<Longrightarrow> mwStages tr = []"
  by (induction rule: errTrace.induct) auto

lemma errTrace_outcome: "errTrace t es v out tr \<Longrightarrow> out \<noteq> Handled \<and> out \<noteq> NotFound"
  by (induction rule: errTrace.induct) auto

lemma pipeTrace_None: "pipeTrace E P None tr \<Longrightarrow> tr = map passed P"
  by (induction E P "None :: outcome option" tr rule: pipeTrace.induct) (auto simp: passed_def)

lemma pipeTrace_outcome: "pipeTrace E P (Some out) tr \<Longrightarrow> out \<noteq> Handled \<and> out \<noteq> NotFound"
  by (induction E P "Some out" tr rule: pipeTrace.induct) (auto dest: errTrace_outcome)

lemma pipeTrace_no_handler: "pipeTrace E P out tr \<Longrightarrow> HandlerRun h \<notin> set tr"
  by (induction rule: pipeTrace.induct) (auto dest: errTrace_events)



lemma mwStages_passed: "mwStages (map passed P) = P"
  by (induction P) (auto simp: passed_def)

lemma mwStages_append: "mwStages (xs @ ys) = mwStages xs @ mwStages ys"
  by (induction xs rule: mwStages.induct) auto

lemma pipeTrace_split:
  "pipeTrace E P out (pre @ MwRun t m (Next v) # post) \<Longrightarrow> v \<noteq> Undefined \<Longrightarrow>
     (\<exists>x. out = Some x \<and> errTrace t (E t) v x post) \<and>
     pre = map passed (take (length pre) P) \<and> length pre < length P \<and> P ! length pre = (t, m)"
proof (induction E P out "pre @ MwRun t m (Next v) # post" arbitrary: pre rule: pipeTrace.induct)
  case (completed E)
  then show ?case by simp
next
  case (mwStalled E t m P)
  then show ?case by (auto simp: Cons_eq_append_conv)
next
  case (mwThrew E t m P x)
  then show ?case by (auto simp: Cons_eq_append_conv)
next
  case (failed v' t' E out tr m' P)
  then show ?case by (auto simp: Cons_eq_append_conv dest: errTrace_events)
next
  case (continued E P out tr t' m')
  then show ?case by (auto simp: Cons_eq_append_conv passed_def)
qed

lemma errTrace_resolved_last:
  "errTrace t es v out (pre @ ErrRun t' e i (Next Undefined) # post) \<Longrightarrow> post = [] \<and> out = Resolved"
  by (induction t es v out "pre @ ErrRun t' e i (Next Undefined) # post" arbitrary: pre
        rule: errTrace.induct) (auto simp: Cons_eq_append_conv)

lemma pipeTrace_resolved_last:
  "pipeTrace E P out (pre @ ErrRun t e i (Next Undefined) # post) \<Longrightarrow>
     post = [] \<and> out = Some Resolved"
  by (induction E P out "pre @ ErrRun t e i (Next Undefined) # post" arbitrary: pre
        rule: pipeTrace.induct) (auto simp: Cons_eq_append_conv dest: errTrace_resolved_last)

lemma runErrMiddlewares_response:
  assumes "\<And>e v rq rs. Q rs \<Longrightarrow> Q (snd (snd (errFun F e v rq rs)))"
  shows "runErrMiddlewares F t es v req res = (out, tr, rq', rs') \<Longrightarrow> Q res \<Longrightarrow> Q rs'"
proof (induction es arbitrary: v req res out tr)
  case Nil
  then show ?case by simp
next
  case (Cons e es)
  obtain s rq1 rs1 where c: "errFun F e v req res = (s, rq1, rs1)"
    by (cases "errFun F e v req res")
  with assms[of res e v req] Cons.prems(2) have q: "Q rs1" by simp
  show ?case
  proof (cases s)
    case (Next v')
    show ?thesis
    proof (cases "v' = Undefined")
      case True
      with Cons.prems c Next q show ?thesis by simp
    next
      case False
      with Cons.prems c Next obtain out2 tr2 where
        "runErrMiddlewares F t es v' rq1 rs1 = (out2, tr2, rq', rs')"
        by (auto split: prod.splits)
      from Cons.IH[OF this q] show ?thesis .
    qed
  next
    case Never
    with Cons.prems c q show ?thesis by simp
  next
    case (Throw x)
    with Cons.prems c q show ?thesis by simp
  qed
qed

lemma runMiddlewares_response:
  assumes "\<And>m rq rs. Q rs \<Longrightarrow> Q (snd (snd (mwFun F m rq rs)))"
      and "\<And>e v rq rs. Q rs \<Longrightarrow> Q (snd (snd (errFun F e v rq rs)))"
  shows "runMiddlewares F t errs ms req res = (out, tr, rq', rs') \<Longrightarrow> Q res \<Longrightarrow> Q rs'"
proof (induction ms arbitrary: req res out tr)
  case Nil
  then show ?case by simp
next
  case (Cons m ms)
  obtain s rq1 rs1 where c: "mwFun F m req res = (s, rq1, rs1)"
    by (cases "mwFun F m req res")
  with assms(1)[of res m req] Cons.prems(2) have q: "Q rs1" by simp
  show ?case
  proof (cases s)
    case (Next v)
    show ?thesis
    proof (cases "v = Undefined")
      case True
      with Cons.prems c Next obtain out2 tr2 where
        "runMiddlewares F t errs ms rq1 rs1 = (out2, tr2, rq', rs')"
        by (auto split: prod.splits)
      from Cons.IH[OF this q] show ?thesis .
    next
      case False
      with Cons.prems c Next obtain out2 tr2 where
        "runErrMiddlewares F t errs v rq1 rs1 = (out2, tr2, rq', rs')"
        by (auto split: prod.splits)
      from runErrMiddlewares_response[of Q F, OF assms(2) this q] show ?thesis .
    qed
  next
    case Never
    with Cons.prems c q show ?thesis by simp
  next
    case (Throw x)
    with Cons.prems c q show ?thesis by simp
  qed
qed

lemma runLevels_response:
  assumes "\<And>m rq rs. Q rs \<Longrightarrow> Q (snd (snd (mwFun F m rq rs)))"
      and "\<And>e v rq rs. Q rs \<Longrightarrow> Q (snd (snd (errFun F e v rq rs)))"
  shows "runLevels F ls req res = (out, tr, rq', rs') \<Longrightarrow> Q res \<Longrightarrow> Q rs'"
proof (induction ls arbitrary: req res out tr)
  case Nil
  then show ?case by simp
next
  case (Cons l ls)
  obtain t ms errs where l: "l = (t, ms, errs)" by (cases l)
  obtain o1 tr1 rq1 rs1 where r1: "runMiddlewares F t errs ms req res = (o1, tr1, rq1, rs1)"
    by (cases "runMiddlewares F t errs ms req res")
  from runMiddlewares_response[of Q F, OF assms r1 Cons.prems(2)] have q: "Q rs1" .
  show ?case
  proof (cases o1)
    case None
    with Cons.prems l r1 obtain o2 tr2 where "runLevels F ls rq1 rs1 = (o2, tr2, rq', rs')"
      by (auto split: prod.splits)
    from Cons.IH[OF this q] show ?thesis .
  next
    case (Some x)
    with Cons.prems l r1 q show ?thesis by simp
  qed
qed

lemma dispatch_unrecovered_response:
  assumes "\<And>m rq rs. Q rs \<Longrightarrow> Q (snd (snd (mwFun F m rq rs)))"
      and "\<And>e v rq rs. Q rs \<Longrightarrow> Q (snd (snd (errFun F e v rq rs)))"
      and d: "dispatch F this router route req res = (Unrecovered e, tr, rq', rs')"
      and "Q res"
  shows "Q rs'"
proof -
  let ?ls = "[(AppTier, middlewares this, errMiddlewares this),
              (RouterTier, middlewares router, errMiddlewares router),
              (RouteTier, middlewares route, errMiddlewares route)]"
  obtain o1 tr1 rq1 rs1 where
    r: "runLevels F ?ls (req\<lparr>pathRegex := Some (path route)\<rparr>) res = (o1, tr1, rq1, rs1)"
    by (cases "runLevels F ?ls (req\<lparr>pathRegex := Some (path route)\<rparr>) res")
  from d have
    "(case (o1, tr1, rq1, rs1) of
        (Some out, tr, rq, rs) \<Rightarrow> (out, tr, rq, rs)
      | (None, tr, rq, rs) \<Rightarrow>
          (case lisFun F (listener route) rq rs of
             (None, rq', rs') \<Rightarrow> (Handled, tr @ [HandlerRun (listener route)], rq', rs')
           | (Some x, rq', rs') \<Rightarrow> (Rejected x, tr @ [HandlerRun (listener route)], rq', rs')))
       = (Unrecovered e, tr, rq', rs')"
    unfolding dispatch_def r .
  then have "rs1 = rs'"
    by (cases o1) (auto split: prod.splits option.splits)
  with runLevels_response[of Q F, OF assms(1,2) r assms(4)] show ?thesis by simp
qed

lemma errTrace_unrecovered:
  "errTrace t es v (Unrecovered e) tr \<Longrightarrow>
     length tr = length es \<and>
     (\<forall>ev\<in>set tr. \<exists>em i v'. ev = ErrRun t em i (Next v') \<and> v' \<noteq> Undefined)"
  by (induction t es v "Unrecovered e" tr rule: errTrace.induct) auto

lemma pipeTrace_unrecovered:
  "pipeTrace E P (Some (Unrecovered e)) tr \<Longrightarrow>
     \<exists>pre t m v post. tr = pre @ MwRun t m (Next v) # post \<and> v \<noteq> Undefined \<and>
       errTrace t (E t) v (Unrecovered e) post"
proof (induction E P "Some (Unrecovered e)" tr rule: pipeTrace.induct)
  case (failed v t E tr m P)
  then show ?case by (metis append_Nil)
next
  case (continued E P tr t m)
  then obtain pre t' m' v post where
    "tr = pre @ MwRun t' m' (Next v) # post" "v \<noteq> Undefined"
    "errTrace t' (E t') v (Unrecovered e) post" by blast
  then have "MwRun t m (Next Undefined) # tr = (MwRun t m (Next Undefined) # pre) @ MwRun t' m' (Next v) # post"
    by simp
  with \<open>v \<noteq> Undefined\<close> \<open>errTrace t' (E t') v (Unrecovered e) post\<close> show ?case by blast
qed

lemma pipeTrace_Some_hd: "pipeTrace E P (Some x) tr \<Longrightarrow> tr \<noteq> [] \<and> isMwRun (hd tr)"
  by (induction E P "Some x" tr rule: pipeTrace.induct) auto

lemma pipeTrace_passed_next:
  "pipeTrace E P (Some x) (pre @ MwRun t m (Next Undefined) # post) \<Longrightarrow>
     post \<noteq> [] \<and> isMwRun (hd post)"
proof (induction E P "Some x" "pre @ MwRun t m (Next Undefined) # post" arbitrary: pre
         rule: pipeTrace.induct)
  case (mwStalled E t m P)
  then show ?case by (auto simp: Cons_eq_append_conv)
next
  case (mwThrew E t m P x)
  then show ?case by (auto simp: Cons_eq_append_conv)
next
  case (failed v t' E tr m' P)
  then show ?case by (auto simp: Cons_eq_append_conv dest: errTrace_events)
next
  case (continued E P tr t' m')
  then show ?case by (auto simp: Cons_eq_append_conv dest: pipeTrace_Some_hd)
qed

lemma errTrace_hd:
  "errTrace t es v out tr \<Longrightarrow>
     (case es of [] \<Rightarrow> tr = [] \<and> out = Unrecovered v
      | em # _ \<Rightarrow> tr \<noteq> [] \<and> (\<exists>s. hd tr = ErrRun t em v s))"
  by (induction rule: errTrace.induct) auto

lemma errTrace_passed_on:
  "errTrace t es v0 out (pre @ ErrRun t' em i (Next v) # post) \<Longrightarrow> v \<noteq> Undefined \<Longrightarrow>
     (case post of [] \<Rightarrow> out = Unrecovered v | ev # _ \<Rightarrow> \<exists>em' s. ev = ErrRun t' em' v s)"
proof (induction t es v0 out "pre @ ErrRun t' em i (Next v) # post" arbitrary: pre
         rule: errTrace.induct)
  case (passedOn v' t es out tr e v0)
  show ?case
  proof (cases pre)
    case Nil
    with passedOn.hyps(4) have "v' = v" "tr = post" "t' = t" by auto
    with errTrace_hd[OF passedOn.hyps(2)] show ?thesis
      by (cases es; cases post) auto
  next
    case (Cons p pre')
    with passedOn.hyps(4) have "tr = pre' @ ErrRun t' em i (Next v) # post" by simp
    from passedOn.hyps(3)[OF this passedOn.prems] show ?thesis .
  qed
qed (auto simp: Cons_eq_append_conv)

lemma pipeTrace_passed_on:
  "pipeTrace E P out (pre @ ErrRun t' em i (Next v) # post) \<Longrightarrow> v \<noteq> Undefined \<Longrightarrow>
     (case post of [] \<Rightarrow> out = Some (Unrecovered v) | ev # _ \<Rightarrow> \<exists>em' s. ev = ErrRun t' em' v s)"
proof (induction E P out "pre @ ErrRun t' em i (Next v) # post" arbitrary: pre
         rule: pipeTrace.induct)
  case (failed v0 t E out tr m P)
  then obtain pre' where "tr = pre' @ ErrRun t' em i (Next v) # post"
    by (auto simp: Cons_eq_append_conv)
  with errTrace_passed_on[of t "E t" v0 out pre' t' em i v post] failed show ?case
    by (auto split: list.splits)
qed (auto simp: Cons_eq_append_conv)

lemma errTrace_Resolved:
  "errTrace t es v Resolved tr \<Longrightarrow> tr \<noteq> [] \<and> (\<exists>em i. last tr = ErrRun t em i (Next Undefined))"
  by (induction t es v Resolved tr rule: errTrace.induct) auto

lemma pipeTrace_Resolved:
  "pipeTrace E P (Some Resolved) tr \<Longrightarrow>
     tr \<noteq> [] \<and> (\<exists>t em i. last tr = ErrRun t em i (Next Undefined))"
proof (induction E P "Some Resolved" tr rule: pipeTrace.induct)
  case (failed v t E tr m P)
  with errTrace_Resolved[OF failed.hyps(2)] show ?case by auto
next
  case (continued E P tr t m)
  then show ?case by auto
qed



lemmas ex_defs = exPath_def exRoute_def exRouter_def exApp_def exReq_def exRes_def exFuns_def
  use_def useForError_def Route_def Router_def Simpress_def routeKey_def matches_def test_def
  toListener_def dispatch_def bslash_def

lemma dispatch_shape:
  assumes "dispatch F this router route req res = (out, tr, rq, rs)"
  obtains (handled) "tr = map passed (pipeline this router route) @ [HandlerRun (listener route)]"
      "out = Handled \<or> (\<exists>x. out = Rejected x)"
    | (stopped) "pipeTrace (tierErrs this router route) (pipeline this router route) (Some out) tr"
proof -
  from dispatch_trace[OF assms] consider
    (a) "pipeTrace (tierErrs this router route) (pipeline this router route) None (butlast tr)"
      "tr \<noteq> []" "last tr = HandlerRun (listener route)"
      "out = Handled \<or> (\<exists>x. out = Rejected x)"
  | (b) "pipeTrace (tierErrs this router route) (pipeline this router route) (Some out) tr"
    by blast
  then show thesis
  proof cases
    case a
    from pipeTrace_None[OF a(1)] a(2,3)
    have t: "tr = map passed (pipeline this router route) @ [HandlerRun (listener route)]"
      by (metis append_butlast_last_id)
    show thesis by (rule handled[OF t a(4)])
  next
    case b
    then show thesis by (rule stopped)
  qed
qed

lemma passed_or_handler:
  "e \<in> set (map passed P @ [HandlerRun h]) \<Longrightarrow> isMwRun e \<or> isHandlerRun e"
  by (auto simp: passed_def)

lemma runErrMiddlewares_calls:
  "runErrMiddlewares F t es v req res = (out, tr, rq, rs) \<Longrightarrow> ErrRun t' e i s \<in> set tr \<Longrightarrow>
     \<exists>rq' rs'. s = fst (errFun F e i rq' rs')"
proof (induction es arbitrary: v req res out tr rq rs)
  case Nil
  then show ?case by simp
next
  case (Cons a es)
  obtain s1 rq1 rs1 where c: "errFun F a v req res = (s1, rq1, rs1)"
    by (cases "errFun F a v req res")
  then have f: "s1 = fst (errFun F a v req res)" by simp
  show ?case
  proof (cases "\<exists>v'. s1 = Next v' \<and> v' \<noteq> Undefined")
    case True
    then obtain v' where s1: "s1 = Next v'" "v' \<noteq> Undefined" by blast
    obtain o2 tr2 rq2 rs2 where r2: "runErrMiddlewares F t es v' rq1 rs1 = (o2, tr2, rq2, rs2)"
      by (cases "runErrMiddlewares F t es v' rq1 rs1")
    from Cons.prems(1) c s1 r2 have tr: "tr = ErrRun t a v (Next v') # tr2" by simp
    with Cons.prems(2) consider "ErrRun t' e i s = ErrRun t a v (Next v')" | "ErrRun t' e i s \<in> set tr2"
      by auto
    then show ?thesis
    proof cases
      case 1
      with f s1 show ?thesis by auto
    next
      case 2
      from Cons.IH[OF r2 2] show ?thesis .
    qed
  next
    case False
    with Cons.prems(1) c have "tr = [ErrRun t a v s1]"
      by (cases s1) (auto split: if_splits)
    with Cons.prems(2) f show ?thesis by auto
  qed
qed

lemma runMiddlewares_calls:
  assumes "runMiddlewares F t errs ms req res = (out, tr, rq, rs)"
  shows "(MwRun t' m s \<in> set tr \<longrightarrow> (\<exists>rq' rs'. s = fst (mwFun F m rq' rs'))) \<and>
         (ErrRun t' e i s \<in> set tr \<longrightarrow> (\<exists>rq' rs'. s = fst (errFun F e i rq' rs')))"
  using assms
proof (induction ms arbitrary: req res out tr rq rs)
  case Nil
  then show ?case by simp
next
  case (Cons a ms)
  obtain s1 rq1 rs1 where c: "mwFun F a req res = (s1, rq1, rs1)"
    by (cases "mwFun F a req res")
  then have f: "s1 = fst (mwFun F a req res)" by simp
  consider (stop) "s1 = Never \<or> (\<exists>x. s1 = Throw x)" | (err) v where "s1 = Next v" "v \<noteq> Undefined"
    | (ok) "s1 = Next Undefined"
    by (cases s1) auto
  then show ?case
  proof cases
    case stop
    with Cons.prems c have "tr = [MwRun t a s1]" by auto
    with f show ?thesis by auto
  next
    case err
    obtain o2 tr2 rq2 rs2 where r2: "runErrMiddlewares F t errs v rq1 rs1 = (o2, tr2, rq2, rs2)"
      by (cases "runErrMiddlewares F t errs v rq1 rs1")
    from Cons.prems c err r2 have tr: "tr = MwRun t a (Next v) # tr2" by simp
    from errTrace_events[OF runErrMiddlewares_trace[OF r2]]
    have "MwRun t' m s \<notin> set tr2" by blast
    with tr f err runErrMiddlewares_calls[OF r2] show ?thesis by auto
  next
    case ok
    obtain o2 tr2 rq2 rs2 where r2: "runMiddlewares F t errs ms rq1 rs1 = (o2, tr2, rq2, rs2)"
      by (cases "runMiddlewares F t errs ms rq1 rs1")
    from Cons.prems c ok r2 have tr: "tr = MwRun t a (Next Undefined) # tr2" by simp
    with Cons.IH[OF r2] f ok show ?thesis by auto
  qed
qed

lemma runLevels_calls:
  assumes "runLevels F ls req res = (out, tr, rq, rs)"
  shows "(MwRun t' m s \<in> set tr \<longrightarrow> (\<exists>rq' rs'. s = fst (mwFun F m rq' rs'))) \<and>
         (ErrRun t' e i s \<in> set tr \<longrightarrow> (\<exists>rq' rs'. s = fst (errFun F e i rq' rs')))"
  using assms
proof (induction ls arbitrary: req res out tr rq rs)
  case Nil
  then show ?case by simp
next
  case (Cons l ls)
  obtain t ms errs where l: "l = (t, ms, errs)" by (cases l)
  obtain o1 tr1 rq1 rs1 where r1: "runMiddlewares F t errs ms req res = (o1, tr1, rq1, rs1)"
    by (cases "runMiddlewares F t errs ms req res")
  note a = runMiddlewares_calls[OF r1, of t' m s e i]
  show ?case
  proof (cases o1)
    case None
    obtain o2 tr2 rq2 rs2 where r2: "runLevels F ls rq1 rs1 = (o2, tr2, rq2, rs2)"
      by (cases "runLevels F ls rq1 rs1")
    from Cons.prems l r1 None r2 have "tr = tr1 @ tr2" by simp
    with a Cons.IH[OF r2] show ?thesis by auto
  next
    case (Some x)
    with Cons.prems l r1 have "tr = tr1" by simp
    with a show ?thesis by simp
  qed
qed

lemma dispatch_calls:
  assumes "dispatch F this router route req res = (out, tr, rq, rs)"
  shows "(MwRun t' m s \<in> set tr \<longrightarrow> (\<exists>rq' rs'. s = fst (mwFun F m rq' rs'))) \<and>
         (ErrRun t' e i s \<in> set tr \<longrightarrow> (\<exists>rq' rs'. s = fst (errFun F e i rq' rs')))"
proof -
  let ?ls = "[(AppTier, middlewares this, errMiddlewares this),
              (RouterTier, middlewares router, errMiddlewares router),
              (RouteTier, middlewares route, errMiddlewares route)]"
  obtain o1 tr1 rq1 rs1 where
    r: "runLevels F ?ls (req\<lparr>pathRegex := Some (path route)\<rparr>) res = (o1, tr1, rq1, rs1)"
    by (cases "runLevels F ?ls (req\<lparr>pathRegex := Some (path route)\<rparr>) res")
  from assms have "tr = tr1 \<or> tr = tr1 @ [HandlerRun (listener route)]"
    unfolding dispatch_def r by (auto split: option.splits prod.splits)
  with runLevels_calls[OF r, of t' m s e i] show ?thesis by auto
qed

lemma errTrace_stop:
  "errTrace t es v0 out (pre @ ErrRun t' em i s # post) \<Longrightarrow>
     (s = Never \<longrightarrow> post = [] \<and> out = Stalled) \<and> (\<forall>x. s = Throw x \<longrightarrow> post = [] \<and> out = Rejected x)"
proof (induction t es v0 out "pre @ ErrRun t' em i s # post" arbitrary: pre rule: errTrace.induct)
  case (passedOn v' t es out tr e v)
  then show ?case by (cases pre) auto
qed (auto simp: Cons_eq_append_conv)

lemma pipeTrace_stop:
  "pipeTrace E P out (pre @ MwRun t m s # post) \<Longrightarrow>
     (s = Never \<longrightarrow> post = [] \<and> out = Some Stalled) \<and>
     (\<forall>x. s = Throw x \<longrightarrow> post = [] \<and> out = Some (Rejected x))"
proof (induction E P out "pre @ MwRun t m s # post" arbitrary: pre rule: pipeTrace.induct)
  case (failed v t' E out tr m' P)
  show ?case
  proof (cases pre)
    case Nil
    with failed.hyps(3) show ?thesis by auto
  next
    case (Cons a pre')
    with failed.hyps(3) have "MwRun t m s \<in> set tr" by auto
    with errTrace_events[OF failed.hyps(2)] show ?thesis by blast
  qed
next
  case (continued E P out tr t' m')
  then show ?case by (cases pre) auto
qed (auto simp: Cons_eq_append_conv)

lemma pipeTrace_err_stop:
  "pipeTrace E P out (pre @ ErrRun t em i s # post) \<Longrightarrow>
     (s = Never \<longrightarrow> post = [] \<and> out = Some Stalled) \<and>
     (\<forall>x. s = Throw x \<longrightarrow> post = [] \<and> out = Some (Rejected x))"
proof (induction E P out "pre @ ErrRun t em i s # post" arbitrary: pre rule: pipeTrace.induct)
  case (failed v t' E out tr m' P)
  from failed.hyps(3) obtain pre' where "tr = pre' @ ErrRun t em i s # post"
    by (cases pre) auto
  with errTrace_stop[of t' "E t'" v out pre' t em i s post] failed.hyps(2) show ?case by simp
next
  case (continued E P out tr t' m')
  then show ?case by (cases pre) auto
qed (auto simp: Cons_eq_append_conv)

lemma newPromise_Next:
  "newPromise c = Next v \<longleftrightarrow> c = CallsNext (Plain v) \<or> c = CallsNext (Thenable (Fulfils v))"
proof (cases c)
  case (CallsNext a)
  then show ?thesis by (cases a rule: resolve.cases) auto
qed auto

lemma newPromise_Throw:
  "newPromise c = Throw x \<longleftrightarrow> c = Throws x \<or> c = CallsNext (Thenable (Rejects x))"
proof (cases c)
  case (CallsNext a)
  then show ?thesis by (cases a rule: resolve.cases) auto
qed auto

lemma newPromise_Never:
  "newPromise c = Never \<longleftrightarrow> c = NeverCalls \<or> c = CallsNext (Thenable Pends)"
proof (cases c)
  case (CallsNext a)
  then show ?thesis by (cases a rule: resolve.cases) auto
qed auto

section \<open>Lemmas about patterns and the registry\<close>

lemma run_append:
  "run st (xs @ ys) = (case run st xs of Inl e \<Rightarrow> Inl e | Inr st' \<Rightarrow> run st' ys)"
  by (induction xs arbitrary: st) (auto split: sum.splits)

lemmas step_defs = step_def stepNormal_def stepEscape_def pushAtom_def openGroup_def
  quantify_def bslash_def

lemma classAtom_mode:
  "classAtom b neg items pend = Inr m \<Longrightarrow> \<exists>items' pend'. m = InClass neg items' pend'"
  by (induction b neg items pend rule: classAtom.induct) (auto split: if_splits)

lemma setMode_class:
  "setMode st (classAtom b neg items pend) = Inr st' \<Longrightarrow>
     \<exists>items' pend'. mode st' = InClass neg items' pend'"
  by (auto simp: setMode_def split: sum.splits dest: classAtom_mode)

lemma stepClass_mode:
  "stepClass st neg items pend c = Inr st' \<Longrightarrow> c \<noteq> CHR '']'' \<Longrightarrow> c \<noteq> bslash \<Longrightarrow>
     \<exists>items' pend'. mode st' = InClass neg items' pend'"
  by (auto simp: stepClass_def setMode_def split: if_splits cpend.splits sum.splits
        dest: classAtom_mode)

lemma stepClassEscape_mode:
  "stepClassEscape st neg items pend c = Inr st' \<Longrightarrow>
     \<exists>items' pend'. mode st' = InClass neg items' pend'"
  unfolding stepClassEscape_def by (auto split: if_splits dest: setMode_class)

lemma step_slash:
  assumes "step st (CHR ''/'') = Inr st1"
  shows "(mode st1 = Normal \<and> seq st1 \<noteq> [] \<and> last (seq st1) = Lit (CHR ''/'')) \<or>
         (\<exists>neg items pend. mode st1 = InClass neg items pend)"
proof (cases "mode st")
  case ClassStart
  with assms have "stepClass st False [] PNone (CHR ''/'') = Inr st1"
    by (simp add: step_def)
  from stepClass_mode[OF this] show ?thesis by (auto simp: bslash_def)
next
  case (InClass neg items pend)
  with assms have "stepClass st neg items pend (CHR ''/'') = Inr st1"
    by (simp add: step_def)
  from stepClass_mode[OF this] show ?thesis by (auto simp: bslash_def)
next
  case (ClassEscape neg items pend)
  with assms have "stepClassEscape st neg items pend (CHR ''/'') = Inr st1"
    by (simp add: step_def)
  from stepClassEscape_mode[OF this] show ?thesis by auto
qed (use assms in \<open>auto simp: step_defs pushLits_def isDigit_def isLetter_def isWordChar_def
        split: if_splits\<close>)

lemma class_tail:
  assumes "mode st = InClass neg items pend"
      and "run st [CHR ''?'', CHR ''$'', CHR ''|'', bslash, CHR ''?''] = Inr st'"
  shows "\<exists>items' pend'. mode st' = InClass neg items' pend'"
proof -
  have plain: "\<exists>i p. mode b = InClass neg i p"
    if "\<exists>i p. mode a = InClass neg i p" "step a c = Inr b" "c \<noteq> CHR '']''" "c \<noteq> bslash"
    for a b c
    using that by (auto simp: step_def dest: stepClass_mode)
  from assms(2) obtain s1 s2 s3 s4 where
    1: "step st (CHR ''?'') = Inr s1" and 2: "step s1 (CHR ''$'') = Inr s2"
    and 3: "step s2 (CHR ''|'') = Inr s3" and 4: "step s3 bslash = Inr s4"
    and 5: "step s4 (CHR ''?'') = Inr st'"
    by (auto split: sum.splits)
  from plain[OF _ 1] assms(1) have "\<exists>i p. mode s1 = InClass neg i p" by (auto simp: bslash_def)
  from plain[OF this 2] have "\<exists>i p. mode s2 = InClass neg i p" by (auto simp: bslash_def)
  from plain[OF this 3] have "\<exists>i p. mode s3 = InClass neg i p" by (auto simp: bslash_def)
  then obtain i p where "mode s3 = InClass neg i p" by blast
  with 4 have "mode s4 = ClassEscape neg i p" by (auto simp: step_def stepClass_def bslash_def)
  with 5 have "stepClassEscape s4 neg i p (CHR ''?'') = Inr st'" by (simp add: step_def)
  from stepClassEscape_mode[OF this] show ?thesis .
qed

lemma run_tail:
  assumes "mode st = Normal" "seq st \<noteq> []" "last (seq st) = Lit (CHR ''/'')"
  shows "run st [CHR ''?'', CHR ''$'', CHR ''|'', bslash, CHR ''?''] =
     Inr (st\<lparr>alts := alts st @ [mkSeq (butlast (seq st) @ [Opt (Lit (CHR ''/'')), Eol])],
             seq := [Lit (CHR ''?'')], mode := Normal\<rparr>)"
  using assms by (simp add: step_defs isDigit_def)

lemma pathPattern_split:
  "pathPattern p = (CHR ''^'' # p @ [bslash]) @ CHR ''/'' # [CHR ''?'', CHR ''$'', CHR ''|'', bslash, CHR ''?'']"
  by (simp add: pathPattern_def)

lemma parse_pathPattern:
  assumes "parse (pathPattern p) = Inr r"
  shows "\<exists>as. r = mkDisj (as @ [mkSeq [Lit (CHR ''?'')]])"
proof -
  let ?tl = "[CHR ''?'', CHR ''$'', CHR ''|'', bslash, CHR ''?'']"
  from assms obtain st where st: "run initState (pathPattern p) = Inr st" and f: "finish st = Inr r"
    by (auto simp: parse_def split: sum.splits)
  from st obtain st0 where st0: "run initState (CHR ''^'' # p @ [bslash]) = Inr st0"
    and r0: "run st0 (CHR ''/'' # ?tl) = Inr st"
    unfolding pathPattern_split run_append by (auto split: sum.splits)
  from r0 obtain st1 where s1: "step st0 (CHR ''/'') = Inr st1" and r1: "run st1 ?tl = Inr st"
    by (auto split: sum.splits)
  from step_slash[OF s1] show ?thesis
  proof
    assume "mode st1 = Normal \<and> seq st1 \<noteq> [] \<and> last (seq st1) = Lit (CHR ''/'')"
    then have "mode st1 = Normal" "seq st1 \<noteq> []" "last (seq st1) = Lit (CHR ''/'')"
      by auto
    from run_tail[OF this] r1 have "seq st = [Lit (CHR ''?'')]" "mode st = Normal"
      by auto
    with f show ?thesis
      by (auto simp: finish_def split: if_splits)
  next
    assume "\<exists>neg items pend. mode st1 = InClass neg items pend"
    then obtain neg items pend where "mode st1 = InClass neg items pend" by blast
    from class_tail[OF this r1] f show ?thesis
      by (auto simp: finish_def split: if_splits)
  qed
qed

lemma ends_mkDisj_last: "q \<in> set (ends b p) \<Longrightarrow> q \<in> set (ends (mkDisj (as @ [b])) p)"
proof (induction as)
  case Nil
  then show ?case by simp
next
  case (Cons a as)
  then show ?case by (cases as) auto
qed

lemma ends_question:
  assumes "i < length u" "u ! i = CHR ''?''"
  shows "(Suc i, drop (Suc i) u) \<in> set (ends (mkSeq [Lit (CHR ''?'')]) (i, drop i u))"
proof -
  from assms have "drop i u = CHR ''?'' # drop (Suc i) u"
    by (metis Cons_nth_drop_Suc)
  then show ?thesis by (simp add: mkSeq_def)
qed

lemma test_question:
  assumes "CHR ''?'' \<in> set u" "ast r = mkDisj (as @ [mkSeq [Lit (CHR ''?'')]])"
  shows "test r u"
proof -
  from assms(1) obtain i where i: "i < length u" "u ! i = CHR ''?''"
    by (auto simp: in_set_conv_nth)
  from ends_mkDisj_last[OF ends_question[OF i], of as] assms(2)
  have "ends (ast r) (i, drop i u) \<noteq> []" by auto
  with i(1) show ?thesis
    unfolding test_def list_ex_iff by (intro bexI[of _ i]) auto
qed

lemma toRegExp_question:
  assumes "toRegExp (PStr p) = Inr r" "CHR ''?'' \<in> set u"
  shows "test r u"
proof -
  from assms(1) obtain a where a: "parse (pathPattern p) = Inr a" and r: "ast r = a"
    by (auto simp: RegExp_def split: sum.splits)
  from parse_pathPattern[OF a] r obtain as where "ast r = mkDisj (as @ [mkSeq [Lit (CHR ''?'')]])"
    by auto
  from test_question[OF assms(2) this] show ?thesis .
qed

lemma run_plain:
  "\<forall>c\<in>set p. \<not> isSyntaxChar c \<Longrightarrow> mode st = Normal \<Longrightarrow>
     run st p = Inr (st\<lparr>seq := seq st @ map Lit p\<rparr>)"
proof (induction p arbitrary: st)
  case Nil
  then show ?case by simp
next
  case (Cons c p)
  from Cons.prems have s: "step st c = Inr (pushAtom (Lit c) st)"
    by (simp add: step_def stepNormal_def isSyntaxChar_def)
  have "mode (pushAtom (Lit c) st) = Normal" by (simp add: pushAtom_def)
  from Cons.IH[OF _ this] Cons.prems(1)
  have "run (pushAtom (Lit c) st) p =
      Inr (pushAtom (Lit c) st\<lparr>seq := seq (pushAtom (Lit c) st) @ map Lit p\<rparr>)" by simp
  with s Cons.prems(2) show ?case by (simp add: pushAtom_def)
qed

lemma parse_plain:
  assumes "\<forall>c\<in>set p. \<not> isSyntaxChar c"
  shows "parse (pathPattern p) = Inr (literalPath p)"
proof -
  have 1: "run initState [CHR ''^''] = Inr (initState\<lparr>seq := [Bol]\<rparr>)"
    by (simp add: step_defs initState_def)
  have 2: "run (initState\<lparr>seq := [Bol]\<rparr>) p = Inr (initState\<lparr>seq := Bol # map Lit p\<rparr>)"
    using run_plain[OF assms, of "initState\<lparr>seq := [Bol]\<rparr>"] by (simp add: initState_def)
  have 3: "run (initState\<lparr>seq := Bol # map Lit p\<rparr>)
             [bslash, CHR ''/'', CHR ''?'', CHR ''$'', CHR ''|'', bslash, CHR ''?''] =
           Inr (initState\<lparr>alts := [mkSeq (Bol # map Lit p @ [Opt (Lit (CHR ''/'')), Eol])],
                 seq := [Lit (CHR ''?'')]\<rparr>)"
    by (simp add: step_defs initState_def isDigit_def)
  have "pathPattern p = [CHR ''^''] @ p @ [bslash, CHR ''/'', CHR ''?'', CHR ''$'', CHR ''|'', bslash, CHR ''?'']"
    by (simp add: pathPattern_def)
  then have "run initState (pathPattern p) =
      Inr (initState\<lparr>alts := [mkSeq (Bol # map Lit p @ [Opt (Lit (CHR ''/'')), Eol])],
                 seq := [Lit (CHR ''?'')]\<rparr>)"
    by (simp only: run_append 1 2 3 sum.case)
  then show ?thesis
    by (simp add: parse_def finish_def initState_def literalPath_def)
qed

lemma ends_lits:
  "ends (mkSeq (map Lit p @ rest)) (i, s) =
     (if prefix p s then ends (mkSeq rest) (i + length p, drop (length p) s) else [])"
proof (induction p arbitrary: i s)
  case Nil
  then show ?case by simp
next
  case (Cons c p)
  show ?case
  proof (cases s)
    case Nil
    then show ?thesis by (simp add: mkSeq_def)
  next
    case (Cons d s')
    with Cons.IH[of "Suc i" s'] show ?thesis by (simp add: mkSeq_def)
  qed
qed

lemma ends_trailer:
  "ends (mkSeq [Opt (Lit (CHR ''/'')), Eol]) (j, s) \<noteq> [] \<longleftrightarrow> s = [] \<or> s = ''/''"
  by (cases s; cases "tl s") (auto simp: mkSeq_def)

lemma ends_anchored:
  "ends (mkSeq (Bol # map Lit p @ [Opt (Lit (CHR ''/'')), Eol])) (i, s) \<noteq> [] \<longleftrightarrow>
     i = 0 \<and> (s = p \<or> s = p @ ''/'')"
proof -
  have "ends (mkSeq (Bol # map Lit p @ [Opt (Lit (CHR ''/'')), Eol])) (i, s) =
      (if i = 0 then ends (mkSeq (map Lit p @ [Opt (Lit (CHR ''/'')), Eol])) (i, s) else [])"
    by (simp add: mkSeq_def)
  also have "\<dots> \<noteq> [] \<longleftrightarrow> i = 0 \<and> prefix p s \<and> (drop (length p) s = [] \<or> drop (length p) s = ''/'')"
    by (simp add: ends_lits ends_trailer)
  also have "\<dots> \<longleftrightarrow> i = 0 \<and> (s = p \<or> s = p @ ''/'')"
    by (auto simp: prefix_def)
  finally show ?thesis .
qed

lemma ends_no_question:
  "CHR ''?'' \<notin> set s \<Longrightarrow> ends (mkSeq [Lit (CHR ''?'')]) (i, s) = []"
  by (cases s) (auto simp: mkSeq_def)

lemma test_literalPath:
  assumes "CHR ''?'' \<notin> set u"
  shows "test \<lparr>source = src, ast = literalPath p\<rparr> u \<longleftrightarrow> u = p \<or> u = p @ ''/''"
proof -
  have q: "ends (mkSeq [Lit (CHR ''?'')]) (i, drop i u) = []" for i
    using assms by (intro ends_no_question) (auto dest: in_set_dropD)
  have "test \<lparr>source = src, ast = literalPath p\<rparr> u \<longleftrightarrow>
      (\<exists>i\<in>{0..<Suc (length u)}. i = 0 \<and> (drop i u = p \<or> drop i u = p @ ''/''))"
    unfolding test_def list_ex_iff literalPath_def
    by (simp add: q ends_anchored del: upt_Suc)
  also have "\<dots> \<longleftrightarrow> u = p \<or> u = p @ ''/''"
    by auto
  finally show ?thesis .
qed

lemma toRegExp_plain:
  "\<forall>c\<in>set p. \<not> isSyntaxChar c \<Longrightarrow>
     toRegExp (PStr p) = Inr \<lparr>source = escapeSource (pathPattern p), ast = literalPath p\<rparr>"
  by (simp add: RegExp_def parse_plain)

lemma run_trailer:
  assumes "mode st = Normal \<or> mode st = AfterQuant"
  shows "run st [bslash, CHR ''/'', CHR ''?'', CHR ''$'', CHR ''|'', bslash, CHR ''?''] =
     Inr (st\<lparr>alts := alts st @ [mkSeq (seq st @ [Opt (Lit (CHR ''/'')), Eol])],
             seq := [Lit (CHR ''?'')], mode := Normal\<rparr>)"
  using assms by (auto simp: step_defs isDigit_def)

lemma parse_unescaped:
  assumes "run initState (''^'' @ p) = Inr st" "stack st = []"
      and "mode st = Normal \<or> mode st = AfterQuant"
  shows "parse (pathPattern p) =
     Inr (mkDisj (alts st @ [mkSeq (seq st @ [Opt (Lit (CHR ''/'')), Eol]), mkSeq [Lit (CHR ''?'')]]))"
proof -
  have "pathPattern p = (''^'' @ p) @ [bslash, CHR ''/'', CHR ''?'', CHR ''$'', CHR ''|'', bslash, CHR ''?'']"
    by (simp add: pathPattern_def)
  then have "run initState (pathPattern p) =
      Inr (st\<lparr>alts := alts st @ [mkSeq (seq st @ [Opt (Lit (CHR ''/'')), Eol])],
             seq := [Lit (CHR ''?'')], mode := Normal\<rparr>)"
    by (simp only: run_append[of initState "''^'' @ p"] assms(1) sum.case run_trailer[OF assms(3)])
  then show ?thesis
    by (simp add: parse_def finish_def assms(2))
qed

lemma ends_mkDisj_snoc:
  "xs \<noteq> [] \<Longrightarrow> ends (mkDisj (xs @ [q])) pos = ends (mkDisj xs) pos @ ends q pos"
proof (induction xs)
  case Nil
  then show ?case by simp
next
  case (Cons a xs)
  then show ?case by (cases xs) auto
qed

lemma test_unescaped:
  assumes "CHR ''?'' \<notin> set u" "xs \<noteq> []"
  shows "test \<lparr>source = src, ast = mkDisj (xs @ [mkSeq [Lit (CHR ''?'')]])\<rparr> u \<longleftrightarrow>
     (\<exists>i\<le>length u. ends (mkDisj xs) (i, drop i u) \<noteq> [])"
proof -
  have q: "ends (mkSeq [Lit (CHR ''?'')]) (i, drop i u) = []" for i
    using assms(1) by (intro ends_no_question) (auto dest: in_set_dropD)
  show ?thesis
    unfolding test_def list_ex_iff
    by (auto simp: ends_mkDisj_snoc[OF assms(2)] q less_Suc_eq_le simp del: upt_Suc)
qed

lemma run_dot:
  assumes "\<forall>c\<in>set a. \<not> isSyntaxChar c" "\<forall>c\<in>set b. \<not> isSyntaxChar c"
  shows "run initState (''^'' @ a @ ''.'' @ b) =
     Inr (initState\<lparr>seq := Bol # map Lit a @ Dot # map Lit b\<rparr>)"
proof -
  have 1: "run initState ''^'' = Inr (initState\<lparr>seq := [Bol]\<rparr>)"
    by (simp add: step_defs initState_def)
  have 2: "run (initState\<lparr>seq := [Bol]\<rparr>) a = Inr (initState\<lparr>seq := Bol # map Lit a\<rparr>)"
    using run_plain[OF assms(1), of "initState\<lparr>seq := [Bol]\<rparr>"] by (simp add: initState_def)
  have 3: "run (initState\<lparr>seq := Bol # map Lit a\<rparr>) ''.'' =
      Inr (initState\<lparr>seq := Bol # map Lit a @ [Dot]\<rparr>)"
    by (simp add: step_defs initState_def)
  have 4: "run (initState\<lparr>seq := Bol # map Lit a @ [Dot]\<rparr>) b =
      Inr (initState\<lparr>seq := Bol # map Lit a @ Dot # map Lit b\<rparr>)"
    using run_plain[OF assms(2), of "initState\<lparr>seq := Bol # map Lit a @ [Dot]\<rparr>"]
    by (simp add: initState_def)
  show ?thesis
    by (simp only: run_append 1 2 3 4 sum.case)
qed

lemma ends_dot:
  "ends (mkSeq (Dot # rest)) (i, s) =
     (case s of [] \<Rightarrow> [] | c # s' \<Rightarrow> if isLineTerminator c then [] else ends (mkSeq rest) (Suc i, s'))"
  by (cases s) (simp_all add: mkSeq_def)

lemma ends_dot_path:
  "ends (mkSeq ((Bol # map Lit a @ Dot # map Lit b) @ [Opt (Lit (CHR ''/'')), Eol])) (i, s) \<noteq> [] \<longleftrightarrow>
     i = 0 \<and> (\<exists>c. \<not> isLineTerminator c \<and> (s = a @ c # b \<or> s = a @ c # b @ ''/''))"
proof -
  let ?t = "[Opt (Lit (CHR ''/'')), Eol]"
  have "ends (mkSeq ((Bol # map Lit a @ Dot # map Lit b) @ ?t)) (i, s) =
      (if i = 0 then ends (mkSeq (map Lit a @ Dot # map Lit b @ ?t)) (i, s) else [])"
    by (simp add: mkSeq_def)
  also have "\<dots> \<noteq> [] \<longleftrightarrow> i = 0 \<and> prefix a s \<and>
      (\<exists>c s'. drop (length a) s = c # s' \<and> \<not> isLineTerminator c \<and> prefix b s' \<and>
         (drop (length b) s' = [] \<or> drop (length b) s' = ''/''))"
    by (auto simp: ends_lits ends_dot ends_trailer split: list.splits)
  also have "\<dots> \<longleftrightarrow> i = 0 \<and> (\<exists>c. \<not> isLineTerminator c \<and> (s = a @ c # b \<or> s = a @ c # b @ ''/''))"
    by (auto simp: prefix_def)
  finally show ?thesis .
qed

lemma parse_open_paren:
  assumes "\<forall>c\<in>set a. \<not> isSyntaxChar c" "\<forall>c\<in>set b. \<not> isSyntaxChar c"
  shows "parse (pathPattern (a @ ''('' @ b)) = Inl SyntaxError"
proof -
  let ?tl = "[bslash, CHR ''/'', CHR ''?'', CHR ''$'', CHR ''|'', bslash, CHR ''?'']"
  let ?s1 = "initState\<lparr>seq := Bol # map Lit a\<rparr>"
  have 1: "run initState ''^'' = Inr (initState\<lparr>seq := [Bol]\<rparr>)"
    by (simp add: step_defs initState_def)
  have 2: "run (initState\<lparr>seq := [Bol]\<rparr>) a = Inr ?s1"
    using run_plain[OF assms(1), of "initState\<lparr>seq := [Bol]\<rparr>"] by (simp add: initState_def)
  have 3: "run ?s1 ''('' = Inr (?s1\<lparr>mode := GroupOpen\<rparr>)"
    by (simp add: step_defs initState_def)
  have 4: "\<exists>st. run (?s1\<lparr>mode := GroupOpen\<rparr>) (b @ ?tl) = Inr st \<and> stack st \<noteq> [] \<and> mode st = Normal"
  proof (cases b)
    case Nil
    then show ?thesis by (simp add: step_defs initState_def isDigit_def)
  next
    case (Cons c b')
    let ?s2 = "pushAtom (Lit c) (openGroup Capture (?s1\<lparr>mode := GroupOpen\<rparr>))"
    from Cons assms(2) have c: "\<not> isSyntaxChar c" and b': "\<forall>c\<in>set b'. \<not> isSyntaxChar c"
      by simp_all
    from c have s: "step (?s1\<lparr>mode := GroupOpen\<rparr>) c = Inr ?s2"
      by (simp add: step_def stepNormal_def isSyntaxChar_def openGroup_def)
    have m2: "mode ?s2 = Normal" by (simp add: pushAtom_def)
    from run_plain[OF b' m2] have r: "run ?s2 b' = Inr (?s2\<lparr>seq := seq ?s2 @ map Lit b'\<rparr>)" .
    have m3: "mode (?s2\<lparr>seq := seq ?s2 @ map Lit b'\<rparr>) = Normal \<or>
              mode (?s2\<lparr>seq := seq ?s2 @ map Lit b'\<rparr>) = AfterQuant"
      by (simp add: pushAtom_def)
    have "run (?s1\<lparr>mode := GroupOpen\<rparr>) (b @ ?tl) =
        (case run (?s1\<lparr>mode := GroupOpen\<rparr>) b of Inl e \<Rightarrow> Inl e | Inr st' \<Rightarrow> run st' ?tl)"
      by (rule run_append)
    also have "run (?s1\<lparr>mode := GroupOpen\<rparr>) b = Inr (?s2\<lparr>seq := seq ?s2 @ map Lit b'\<rparr>)"
      using s r Cons by simp
    finally show ?thesis
      by (simp only: sum.case run_trailer[OF m3]) (simp add: pushAtom_def openGroup_def)
  qed
  have "pathPattern (a @ ''('' @ b) = ''^'' @ a @ ''('' @ (b @ ?tl)"
    by (simp add: pathPattern_def)
  then have "run initState (pathPattern (a @ ''('' @ b)) = run (?s1\<lparr>mode := GroupOpen\<rparr>) (b @ ?tl)"
    by (simp only: run_append[of _ "''^''"] run_append[of _ a] run_append[of _ "''(''"] 1 2 3 sum.case)
  with 4 show ?thesis
    by (auto simp: parse_def finish_def)
qed

lemma map_of_mapSet: "map_of (mapSet k v kvs) = (map_of kvs)(k \<mapsto> v)"
  by (induction kvs) auto

lemma keys_mapSet:
  "map fst (mapSet k v kvs) =
     (if k \<in> fst ` set kvs then map fst kvs else map fst kvs @ [k])"
  by (induction kvs) force+

lemma keys_mapSet_again: "map fst (mapSet k w (mapSet k v kvs)) = map fst (mapSet k v kvs)"
  by (induction kvs) auto

lemma mapGet_mapSet: "mapGet k (mapSet k v kvs) = Some v"
  by (simp add: mapGet_def map_of_mapSet)

lemma mapSet_member: "(k, v) \<in> set (mapSet k v kvs)"
  by (induction kvs) auto

section \<open>The order of the middlewares and the handler\<close>



section \<open>Errors\<close>

text \<open>
  Claim C2. When a middleware of tier \<open>t\<close> passes a value other than \<open>undefined\<close> to its
  continuation, every middleware before it has passed \<open>undefined\<close>, no later middleware of any
  tier and no handler runs, and what follows in the log is exactly a run of the error
  middlewares of tier \<open>t\<close>, in their order, the first one called with that value.
\<close>

theorem C2_error_abandons_pipeline:
  assumes "findMatch (routers this) req = Some (router, route)"
      and "toListener F this req res = (out, tr, req', res')"
      and "tr = pre @ MwRun t m (Next v) # post"
      and "v \<noteq> Undefined"
  shows "errTrace t (tierErrs this router route t) v out post \<and>
         pre = map passed (take (length pre) (pipeline this router route)) \<and>
         length pre < length (pipeline this router route) \<and>
         pipeline this router route ! length pre = (t, m) \<and>
         mwStages tr = take (Suc (length pre)) (pipeline this router route) \<and>
         (\<forall>e\<in>set post. \<exists>em i s. e = ErrRun t em i s) \<and>
         (\<forall>h. HandlerRun h \<notin> set tr) \<and> out \<noteq> Handled"
proof -
  let ?P = "pipeline this router route"
  let ?E = "tierErrs this router route"
  from assms have d: "dispatch F this router route req res = (out, tr, req', res')"
    by (simp add: toListener_matched)
  have p: "pipeTrace ?E ?P (Some out) tr"
  proof -
    from dispatch_trace[OF d] consider
      (handled) "pipeTrace ?E ?P None (butlast tr)" "tr \<noteq> []"
        "last tr = HandlerRun (listener route)"
    | (stopped) "pipeTrace ?E ?P (Some out) tr"
      by blast
    then show ?thesis
    proof cases
      case handled
      from pipeTrace_None[OF handled(1)] handled(2,3)
      have "tr = map passed ?P @ [HandlerRun (listener route)]"
        by (metis append_butlast_last_id)
      moreover have "MwRun t m (Next v) \<in> set tr" using assms(3) by simp
      ultimately show ?thesis using assms(4) by (auto simp: passed_def)
    qed
  qed
  from pipeTrace_split[OF p[unfolded assms(3)] assms(4)]
  have e: "errTrace t (?E t) v out post"
    and pre: "pre = map passed (take (length pre) ?P)"
    and len: "length pre < length ?P" and nth: "?P ! length pre = (t, m)"
    by auto
  have "mwStages tr = mwStages pre @ [(t, m)]"
    unfolding assms(3) by (simp add: mwStages_append errTrace_mwStages[OF e])
  also have "mwStages pre = take (length pre) ?P"
    by (subst pre) (simp add: mwStages_passed)
  finally have st: "mwStages tr = take (Suc (length pre)) ?P"
    using len nth by (simp add: take_Suc_conv_app_nth)
  from e pre len nth st errTrace_events[OF e] pipeTrace_no_handler[OF p] pipeTrace_outcome[OF p]
  show ?thesis by blast
qed

theorem C2_witness:
  "findMatch (routers exApp) exReq = Some (exRouter, exRoute) \<and>
   toListener
       (exFuns (\<lambda>m. if m = 2 then Next (JError ''boom'') else Next Undefined)
          (\<lambda>e. Next (JStr ''again'')))
       exApp exReq exRes =
     (Unrecovered (JStr ''again''),
      [MwRun AppTier 1 (Next Undefined)] @ MwRun RouterTier 2 (Next (JError ''boom'')) #
        [ErrRun RouterTier 12 (JError ''boom'') (Next (JStr ''again''))],
      exReq\<lparr>pathRegex := Some exPath\<rparr>, exRes\<lparr>statusCode := 400\<rparr>) \<and>
   JError ''boom'' \<noteq> Undefined \<and>
   errTrace RouterTier (tierErrs exApp exRouter exRoute RouterTier) (JError ''boom'')
     (Unrecovered (JStr ''again''))
     [ErrRun RouterTier 12 (JError ''boom'') (Next (JStr ''again''))] \<and>
   mwStages
     ([MwRun AppTier 1 (Next Undefined)] @ MwRun RouterTier 2 (Next (JError ''boom'')) #
        [ErrRun RouterTier 12 (JError ''boom'') (Next (JStr ''again''))]) =
     take (Suc (length [MwRun AppTier 1 (Next Undefined)])) (pipeline exApp exRouter exRoute) \<and>
   (\<forall>h. HandlerRun h \<notin>
      set ([MwRun AppTier 1 (Next Undefined)] @ MwRun RouterTier 2 (Next (JError ''boom'')) #
        [ErrRun RouterTier 12 (JError ''boom'') (Next (JStr ''again''))]))"
proof -
  let ?F = "exFuns (\<lambda>m. if m = 2 then Next (JError ''boom'') else Next Undefined)
                   (\<lambda>e. Next (JStr ''again''))"
  let ?pre = "[MwRun AppTier 1 (Next Undefined)]"
  let ?post = "[ErrRun RouterTier 12 (JError ''boom'') (Next (JStr ''again''))]"
  let ?tr = "?pre @ MwRun RouterTier 2 (Next (JError ''boom'')) # ?post"
  have m: "findMatch (routers exApp) exReq = Some (exRouter, exRoute)"
    by (simp add: ex_defs)
  have r: "toListener ?F exApp exReq exRes =
         (Unrecovered (JStr ''again''), ?tr, exReq\<lparr>pathRegex := Some exPath\<rparr>,
          exRes\<lparr>statusCode := 400\<rparr>)"
    by (simp add: ex_defs)
  have v: "JError ''boom'' \<noteq> Undefined"
    by simp
  note c = C2_error_abandons_pipeline[OF m r refl v]
  from c have c1: "errTrace RouterTier (tierErrs exApp exRouter exRoute RouterTier)
      (JError ''boom'') (Unrecovered (JStr ''again'')) ?post"
    by (rule conjunct1)
  from c have c2: "mwStages ?tr = take (Suc (length ?pre)) (pipeline exApp exRouter exRoute)"
    by blast
  from c have c3: "\<forall>h. HandlerRun h \<notin> set ?tr"
    by blast
  from m r v c1 c2 c3 show ?thesis
    by (intro conjI)
qed

text \<open>
  Claim C3. When an error middleware passes \<open>undefined\<close> to its continuation, that call is the
  last one of the listener: no further error middleware, no middleware of a later tier and no
  handler runs, and the listener ends there.
\<close>

theorem C3_resolved_error_ends_pipeline:
  assumes "toListener F this req res = (out, tr, req', res')"
      and "tr = pre @ ErrRun t em v (Next Undefined) # post"
  shows "post = [] \<and> out = Resolved \<and> (\<forall>h. HandlerRun h \<notin> set tr)"
proof (cases "findMatch (routers this) req")
  case None
  with assms(1) have "tr = []"
    by (auto simp: toListener_unmatched split: sum.splits)
  with assms(2) show ?thesis by simp
next
  case (Some rr)
  obtain router route where rr: "rr = (router, route)" by (cases rr)
  let ?P = "pipeline this router route"
  let ?E = "tierErrs this router route"
  from assms(1) Some rr have d: "dispatch F this router route req res = (out, tr, req', res')"
    by (simp add: toListener_matched)
  from dispatch_trace[OF d] consider
    (handled) "pipeTrace ?E ?P None (butlast tr)" "tr \<noteq> []"
      "last tr = HandlerRun (listener route)"
  | (stopped) "pipeTrace ?E ?P (Some out) tr"
    by blast
  then show ?thesis
  proof cases
    case handled
    from pipeTrace_None[OF handled(1)] handled(2,3)
    have "tr = map passed ?P @ [HandlerRun (listener route)]"
      by (metis append_butlast_last_id)
    moreover have "ErrRun t em v (Next Undefined) \<in> set tr" using assms(2) by simp
    ultimately show ?thesis by (auto simp: passed_def)
  next
    case stopped
    from pipeTrace_resolved_last[OF stopped[unfolded assms(2)]] pipeTrace_no_handler[OF stopped]
    show ?thesis by simp
  qed
qed

theorem C3_witness:
  "tierErrs exApp exRouter exRoute AppTier = [11, 21] \<and>
   toListener (exFuns (\<lambda>m. Next (JError ''boom'')) (\<lambda>e. Next Undefined)) exApp exReq exRes =
     (Resolved,
      [MwRun AppTier 1 (Next (JError ''boom''))] @
        ErrRun AppTier 11 (JError ''boom'') (Next Undefined) # [],
      exReq\<lparr>pathRegex := Some exPath\<rparr>, exRes\<lparr>statusCode := 400\<rparr>) \<and>
   (\<forall>h. HandlerRun h \<notin>
      set ([MwRun AppTier 1 (Next (JError ''boom''))] @
        ErrRun AppTier 11 (JError ''boom'') (Next Undefined) # []))"
proof -
  let ?F = "exFuns (\<lambda>m. Next (JError ''boom'')) (\<lambda>e. Next Undefined)"
  let ?pre = "[MwRun AppTier 1 (Next (JError ''boom''))]"
  let ?tr = "?pre @ ErrRun AppTier 11 (JError ''boom'') (Next Undefined) # []"
  have e: "tierErrs exApp exRouter exRoute AppTier = [11, 21]"
    by (simp add: ex_defs)
  have r: "toListener ?F exApp exReq exRes =
         (Resolved, ?tr, exReq\<lparr>pathRegex := Some exPath\<rparr>, exRes\<lparr>statusCode := 400\<rparr>)"
    by (simp add: ex_defs)
  from C3_resolved_error_ends_pipeline[OF r refl] have c: "\<forall>h. HandlerRun h \<notin> set ?tr"
    by blast
  from e r c show ?thesis
    by (intro conjI)
qed

section \<open>Requests that match no route\<close>

text \<open>
  Claim C5. When no route of any router matches the request, the listener calls no
  middleware, no error middleware and no handler, whatever is registered; on a response whose
  head is still unsent (as the server hands it over) it writes the status 404 and ends the
  response, adding no body.
\<close>

theorem C5_unmatched_request_404:
  assumes "\<forall>router\<in>set (routers this). \<forall>kr\<in>set (routes router). \<not> matches (snd kr) req"
  shows "fst (snd (toListener F this req res)) = [] \<and>
         (\<not> headersSent res \<longrightarrow>
            toListener F this req res =
              (NotFound, [], req,
               res\<lparr>statusCode := 404, headersSent := True, finished := True\<rparr>) \<and>
            chunks (snd (snd (snd (toListener F this req res)))) = chunks res)"
proof -
  from assms have "findMatch (routers this) req = None"
    by (simp add: findMatch_None)
  then show ?thesis
    by (simp add: toListener_unmatched writeHead_def endResponse_def)
qed

theorem C5_witness:
  "findMatch (routers exApp) (exReq\<lparr>url := ''/missing''\<rparr>) = None \<and>
   \<not> headersSent exRes \<and>
   toListener (exFuns (\<lambda>m. Next (JError ''boom'')) (\<lambda>e. Next Undefined)) exApp
       (exReq\<lparr>url := ''/missing''\<rparr>) exRes =
     (NotFound, [], exReq\<lparr>url := ''/missing''\<rparr>,
      \<lparr>statusCode = 404, headersSent = True, finished = True, chunks = []\<rparr>)"
proof -
  have n: "findMatch (routers exApp) (exReq\<lparr>url := ''/missing''\<rparr>) = None"
    by (simp add: ex_defs)
  then have a: "\<forall>router\<in>set (routers exApp). \<forall>kr\<in>set (routes router).
       \<not> matches (snd kr) (exReq\<lparr>url := ''/missing''\<rparr>)"
    by (simp only: findMatch_None)
  have b: "\<not> headersSent exRes"
    by (simp add: exRes_def)
  from C5_unmatched_request_404[OF a,
      of "exFuns (\<lambda>m. Next (JError ''boom'')) (\<lambda>e. Next Undefined)" exRes] b
  have "toListener (exFuns (\<lambda>m. Next (JError ''boom'')) (\<lambda>e. Next Undefined)) exApp
       (exReq\<lparr>url := ''/missing''\<rparr>) exRes =
     (NotFound, [], exReq\<lparr>url := ''/missing''\<rparr>,
      \<lparr>statusCode = 404, headersSent = True, finished = True, chunks = []\<rparr>)"
    by (simp add: exRes_def)
  with n b show ?thesis by (intro conjI)
qed

section \<open>Errors that no error middleware resolves\<close>

text \<open>
  Claim C8. When the listener ends because the error middlewares of the tier are used up
  (every one of them was called and passed a value other than \<open>undefined\<close> on), the handler
  has not run, and the listener itself has written nothing to the response: whatever holds
  of the response at the start and is kept by every middleware and error middleware still
  holds at the end.
\<close>

theorem C8_unrecovered_error_no_handler_no_response:
  assumes "findMatch (routers this) req = Some (router, route)"
      and "toListener F this req res = (Unrecovered e, tr, req', res')"
  shows "(\<forall>h. HandlerRun h \<notin> set tr) \<and>
         (\<exists>pre t m v post. tr = pre @ MwRun t m (Next v) # post \<and> v \<noteq> Undefined \<and>
            length post = length (tierErrs this router route t) \<and>
            (\<forall>ev\<in>set post. \<exists>em i v'. ev = ErrRun t em i (Next v') \<and> v' \<noteq> Undefined)) \<and>
         ((\<forall>m rq rs. Q rs \<longrightarrow> Q (snd (snd (mwFun F m rq rs)))) \<and>
          (\<forall>em v rq rs. Q rs \<longrightarrow> Q (snd (snd (errFun F em v rq rs)))) \<and> Q res
            \<longrightarrow> Q res')"
proof -
  from assms have d: "dispatch F this router route req res = (Unrecovered e, tr, req', res')"
    by (simp add: toListener_matched)
  from d have p: "pipeTrace (tierErrs this router route) (pipeline this router route)
      (Some (Unrecovered e)) tr"
    by (cases rule: dispatch_shape) auto
  from pipeTrace_unrecovered[OF p] obtain pre t m v post where
    s: "tr = pre @ MwRun t m (Next v) # post" "v \<noteq> Undefined"
      "errTrace t (tierErrs this router route t) v (Unrecovered e) post"
    by blast
  from errTrace_unrecovered[OF s(3)] s(1,2)
  have two: "\<exists>pre t m v post. tr = pre @ MwRun t m (Next v) # post \<and> v \<noteq> Undefined \<and>
            length post = length (tierErrs this router route t) \<and>
            (\<forall>ev\<in>set post. \<exists>em i v'. ev = ErrRun t em i (Next v') \<and> v' \<noteq> Undefined)"
    by blast
  have three: "(\<forall>m rq rs. Q rs \<longrightarrow> Q (snd (snd (mwFun F m rq rs)))) \<and>
          (\<forall>em v rq rs. Q rs \<longrightarrow> Q (snd (snd (errFun F em v rq rs)))) \<and> Q res
            \<longrightarrow> Q res'"
  proof
    assume a: "(\<forall>m rq rs. Q rs \<longrightarrow> Q (snd (snd (mwFun F m rq rs)))) \<and>
          (\<forall>em v rq rs. Q rs \<longrightarrow> Q (snd (snd (errFun F em v rq rs)))) \<and> Q res"
    show "Q res'"
      by (rule dispatch_unrecovered_response[of Q F, OF _ _ d]) (use a in blast)+
  qed
  from pipeTrace_no_handler[OF p] two three show ?thesis by blast
qed

theorem C8_witness:
  "findMatch (routers exApp) exReq = Some (exRouter, exRoute) \<and>
   toListener
       (exFuns (\<lambda>m. if m = 2 then Next (JError ''boom'') else Next Undefined)
          (\<lambda>e. Next (JStr ''again'')))
       exApp exReq exRes =
     (Unrecovered (JStr ''again''),
      [MwRun AppTier 1 (Next Undefined), MwRun RouterTier 2 (Next (JError ''boom'')),
       ErrRun RouterTier 12 (JError ''boom'') (Next (JStr ''again''))],
      exReq\<lparr>pathRegex := Some exPath\<rparr>, exRes\<lparr>statusCode := 400\<rparr>) \<and>
   unwritten exRes \<and>
   (\<forall>h. HandlerRun h \<notin>
      set [MwRun AppTier 1 (Next Undefined), MwRun RouterTier 2 (Next (JError ''boom'')),
           ErrRun RouterTier 12 (JError ''boom'') (Next (JStr ''again''))]) \<and>
   unwritten (exRes\<lparr>statusCode := 400\<rparr>)"
proof -
  let ?F = "exFuns (\<lambda>m. if m = 2 then Next (JError ''boom'') else Next Undefined)
                   (\<lambda>e. Next (JStr ''again''))"
  let ?tr = "[MwRun AppTier 1 (Next Undefined), MwRun RouterTier 2 (Next (JError ''boom'')),
              ErrRun RouterTier 12 (JError ''boom'') (Next (JStr ''again''))]"
  have m: "findMatch (routers exApp) exReq = Some (exRouter, exRoute)"
    by (simp add: ex_defs)
  have r: "toListener ?F exApp exReq exRes =
         (Unrecovered (JStr ''again''), ?tr, exReq\<lparr>pathRegex := Some exPath\<rparr>,
          exRes\<lparr>statusCode := 400\<rparr>)"
    by (simp add: ex_defs)
  have q1: "\<forall>m rq rs. unwritten rs \<longrightarrow> unwritten (snd (snd (mwFun ?F m rq rs)))"
    by (simp add: exFuns_def unwritten_def)
  have q2: "\<forall>em v rq rs. unwritten rs \<longrightarrow> unwritten (snd (snd (errFun ?F em v rq rs)))"
    by (simp add: exFuns_def unwritten_def)
  have q3: "unwritten exRes"
    by (simp add: exRes_def unwritten_def)
  note c = C8_unrecovered_error_no_handler_no_response[OF m r, of unwritten]
  from c have c1: "\<forall>h. HandlerRun h \<notin> set ?tr"
    by (rule conjunct1)
  from c q1 q2 q3 have c3: "unwritten (exRes\<lparr>statusCode := 400\<rparr>)"
    by blast
  from m r q3 c1 c3 show ?thesis
    by (intro conjI)
qed

section \<open>Which values count as an error\<close>

text \<open>
  What the executor does with what an \<open>await\<close> yields. After a middleware whose promise was
  fulfilled with \<open>undefined\<close> the next middleware or the handler runs. After one whose promise
  was fulfilled with any other value (so also \<open>null\<close>, \<open>false\<close>, \<open>0\<close> or the empty string)
  no middleware and no handler runs: the first error middleware of its tier is called with that
  value, or, if the tier has none, the listener ends there. An error middleware whose promise
  is fulfilled with \<open>undefined\<close> ends the listener with the error resolved; with any other
  value, that value goes to the next error middleware, or the listener ends unresolved if it
  was the last. The listener ends with the error resolved only after an error middleware came
  to \<open>undefined\<close>, and reaches the handler only if every middleware did.
\<close>

lemma undefined_is_success:
  assumes "findMatch (routers this) req = Some (router, route)"
      and "toListener F this req res = (out, tr, req', res')"
  shows "(\<forall>pre t m v post. tr = pre @ MwRun t m (Next v) # post \<longrightarrow>
            (v = Undefined \<longrightarrow> post \<noteq> [] \<and> (isMwRun (hd post) \<or> isHandlerRun (hd post))) \<and>
            (v \<noteq> Undefined \<longrightarrow>
               (\<forall>e\<in>set post. \<not> isMwRun e \<and> \<not> isHandlerRun e) \<and>
               (case tierErrs this router route t of
                  [] \<Rightarrow> post = [] \<and> out = Unrecovered v
                | em # _ \<Rightarrow> post \<noteq> [] \<and> (\<exists>s. hd post = ErrRun t em v s)))) \<and>
         (\<forall>pre t em i v post. tr = pre @ ErrRun t em i (Next v) # post \<longrightarrow>
            (v = Undefined \<longrightarrow> post = [] \<and> out = Resolved) \<and>
            (v \<noteq> Undefined \<longrightarrow>
               (case post of
                  [] \<Rightarrow> out = Unrecovered v
                | ev # _ \<Rightarrow> \<exists>em' s. ev = ErrRun t em' v s))) \<and>
         (out = Resolved \<longrightarrow> tr \<noteq> [] \<and> (\<exists>t em i. last tr = ErrRun t em i (Next Undefined))) \<and>
         (out = Handled \<longrightarrow> (\<forall>t m s. MwRun t m s \<in> set tr \<longrightarrow> s = Next Undefined)) \<and>
         (\<forall>v\<in>{Null, JBool False, JNum 0, JStr ''''}. \<forall>pre t m post.
            tr = pre @ MwRun t m (Next v) # post \<longrightarrow>
              out \<noteq> Handled \<and> (\<forall>e\<in>set post. \<not> isMwRun e \<and> \<not> isHandlerRun e))"
proof -
  let ?P = "pipeline this router route"
  let ?E = "tierErrs this router route"
  from assms have d: "dispatch F this router route req res = (out, tr, req', res')"
    by (simp add: toListener_matched)
  have mw_ok: "post \<noteq> [] \<and> (isMwRun (hd post) \<or> isHandlerRun (hd post))"
    if "tr = pre @ MwRun t m (Next Undefined) # post" for pre t m post
    using d
  proof (cases rule: dispatch_shape)
    case handled
    from handled(1) that have "post \<noteq> []"
      by (metis event.distinct(3) last.simps last_appendR list.distinct(1) snoc_eq_iff_butlast)
    moreover from this that have "hd post \<in> set tr" by simp
    ultimately show ?thesis
      using passed_or_handler[of "hd post" ?P "listener route"] handled(1) by simp
  next
    case stopped
    from pipeTrace_passed_next[OF stopped[unfolded that]] show ?thesis by simp
  qed
  have mw_err: "(\<forall>e\<in>set post. \<not> isMwRun e \<and> \<not> isHandlerRun e) \<and> out \<noteq> Handled \<and>
               (case ?E t of
                  [] \<Rightarrow> post = [] \<and> out = Unrecovered v
                | em # _ \<Rightarrow> post \<noteq> [] \<and> (\<exists>s. hd post = ErrRun t em v s))"
    if "tr = pre @ MwRun t m (Next v) # post" "v \<noteq> Undefined" for pre t m v post
    using d
  proof (cases rule: dispatch_shape)
    case handled
    have "MwRun t m (Next v) \<in> set tr" using that(1) by simp
    with handled(1) that(2) show ?thesis by (auto simp: passed_def)
  next
    case stopped
    from pipeTrace_split[OF stopped[unfolded that(1)] that(2)]
    have e: "errTrace t (?E t) v out post" by simp
    from errTrace_events[OF e] have "\<forall>e\<in>set post. \<not> isMwRun e \<and> \<not> isHandlerRun e"
      by fastforce
    with errTrace_hd[OF e] errTrace_outcome[OF e] show ?thesis by simp
  qed
  have err: "(v = Undefined \<longrightarrow> post = [] \<and> out = Resolved) \<and>
            (v \<noteq> Undefined \<longrightarrow>
               (case post of
                  [] \<Rightarrow> out = Unrecovered v
                | ev # _ \<Rightarrow> \<exists>em' s. ev = ErrRun t em' v s))"
    if "tr = pre @ ErrRun t em i (Next v) # post" for pre t em i v post
    using d
  proof (cases rule: dispatch_shape)
    case handled
    have "ErrRun t em i (Next v) \<in> set tr" using that by simp
    with handled(1) show ?thesis by (auto simp: passed_def)
  next
    case stopped
    show ?thesis
    proof (cases "v = Undefined")
      case True
      with pipeTrace_resolved_last[of ?E ?P "Some out" pre t em i post] stopped that
      show ?thesis by simp
    next
      case False
      with pipeTrace_passed_on[OF stopped[unfolded that] False] show ?thesis
        by (auto split: list.splits)
    qed
  qed
  have resolved: "out = Resolved \<longrightarrow> tr \<noteq> [] \<and> (\<exists>t em i. last tr = ErrRun t em i (Next Undefined))"
    using d
  proof (cases rule: dispatch_shape)
    case handled
    then show ?thesis by auto
  next
    case stopped
    then show ?thesis using pipeTrace_Resolved by blast
  qed
  have handled: "out = Handled \<longrightarrow> (\<forall>t m s. MwRun t m s \<in> set tr \<longrightarrow> s = Next Undefined)"
    using d
  proof (cases rule: dispatch_shape)
    case handled
    then show ?thesis by (auto simp: passed_def)
  next
    case stopped
    then show ?thesis using pipeTrace_outcome by blast
  qed
  have falsy: "\<forall>v\<in>{Null, JBool False, JNum 0, JStr ''''}. \<forall>pre t m post.
            tr = pre @ MwRun t m (Next v) # post \<longrightarrow>
              out \<noteq> Handled \<and> (\<forall>e\<in>set post. \<not> isMwRun e \<and> \<not> isHandlerRun e)"
  proof (intro ballI allI impI)
    fix v pre t m post
    assume "v \<in> {Null, JBool False, JNum 0, JStr ''''}" and s: "tr = pre @ MwRun t m (Next v) # post"
    then have "v \<noteq> Undefined" by auto
    from mw_err[OF s this]
    show "out \<noteq> Handled \<and> (\<forall>e\<in>set post. \<not> isMwRun e \<and> \<not> isHandlerRun e)" by simp
  qed
  from mw_ok mw_err err resolved handled falsy show ?thesis
    by (intro conjI allI impI) blast+
qed

text \<open>
  A value other than \<open>undefined\<close> that is success. The first middleware hands its continuation
  a promise fulfilled with \<open>undefined\<close>, as in \<open>next(Promise.resolve())\<close>: no error middleware
  is called, the other middlewares and the handler run.
\<close>

theorem C10_counterexample:
  "toListener
     (awaited (exBodies (\<lambda>m. if m = 1 then CallsNext (Thenable (Fulfils Undefined))
                              else CallsNext (Plain Undefined))
                        (\<lambda>e. CallsNext (Plain Undefined))))
     exApp exReq exRes =
     (Handled,
      [MwRun AppTier 1 (Next Undefined), MwRun RouterTier 2 (Next Undefined),
       MwRun RouteTier 3 (Next Undefined), HandlerRun 9],
      exReq\<lparr>pathRegex := Some exPath\<rparr>,
      exRes\<lparr>statusCode := 200, headersSent := True, finished := True, chunks := [''ok'']\<rparr>) \<and>
   Thenable (Fulfils Undefined) \<noteq> Plain Undefined"
  by (simp add: awaited_def exBodies_def ex_defs)

text \<open>
  Claim C10, as the code has it. The executor does not judge the value handed to a
  continuation but what the promise around the call is settled with: every signal in the log
  is what \<open>newPromise\<close> makes of what the function called did with its continuation. The
  promise is fulfilled with a value exactly when the continuation was handed that value or a
  thenable that fulfils with it. So success is \<open>undefined\<close> or a thenable that fulfils with
  \<open>undefined\<close>, and every value that is neither a thenable nor \<open>undefined\<close> (so also \<open>null\<close>,
  \<open>false\<close>, \<open>0\<close> or the empty string) is an error: no further middleware and no handler
  runs, and the first error middleware of the tier is called with the value, or, if the tier has
  none, the listener ends there. A thenable that fulfils with another value is an error with
  that value. A thenable that is rejected does what a throw does, and one that is never settled
  does what a continuation never called does: the log ends there, with the listener rejected or
  stalled, and no error middleware is called. The same holds of an error middleware: it resolves
  the error exactly when its promise is fulfilled with \<open>undefined\<close>.
\<close>

theorem C10_settled_undefined_is_success:
  assumes "findMatch (routers this) req = Some (router, route)"
      and "toListener (awaited B) this req res = (out, tr, req', res')"
  shows "(\<forall>t m s. MwRun t m s \<in> set tr \<longrightarrow>
            (\<exists>rq rs. s = newPromise (fst (mwBody B m rq rs)))) \<and>
         (\<forall>t em i s. ErrRun t em i s \<in> set tr \<longrightarrow>
            (\<exists>rq rs. s = newPromise (fst (errBody B em i rq rs)))) \<and>
         (\<forall>c v. newPromise c = Next v \<longleftrightarrow>
            c = CallsNext (Plain v) \<or> c = CallsNext (Thenable (Fulfils v))) \<and>
         (\<forall>c x. newPromise c = Throw x \<longleftrightarrow>
            c = Throws x \<or> c = CallsNext (Thenable (Rejects x))) \<and>
         (\<forall>c. newPromise c = Never \<longleftrightarrow> c = NeverCalls \<or> c = CallsNext (Thenable Pends)) \<and>
         (\<forall>pre t m v post. tr = pre @ MwRun t m (Next v) # post \<longrightarrow>
            (v = Undefined \<longrightarrow> post \<noteq> [] \<and> (isMwRun (hd post) \<or> isHandlerRun (hd post))) \<and>
            (v \<noteq> Undefined \<longrightarrow>
               (\<forall>e\<in>set post. \<not> isMwRun e \<and> \<not> isHandlerRun e) \<and>
               (case tierErrs this router route t of
                  [] \<Rightarrow> post = [] \<and> out = Unrecovered v
                | em # _ \<Rightarrow> post \<noteq> [] \<and> (\<exists>s. hd post = ErrRun t em v s)))) \<and>
         (\<forall>pre t em i v post. tr = pre @ ErrRun t em i (Next v) # post \<longrightarrow>
            (v = Undefined \<longrightarrow> post = [] \<and> out = Resolved) \<and>
            (v \<noteq> Undefined \<longrightarrow>
               (case post of
                  [] \<Rightarrow> out = Unrecovered v
                | ev # _ \<Rightarrow> \<exists>em' s. ev = ErrRun t em' v s))) \<and>
         (out = Resolved \<longrightarrow> tr \<noteq> [] \<and> (\<exists>t em i. last tr = ErrRun t em i (Next Undefined))) \<and>
         (out = Handled \<longrightarrow> (\<forall>t m s. MwRun t m s \<in> set tr \<longrightarrow> s = Next Undefined)) \<and>
         (\<forall>v\<in>{Null, JBool False, JNum 0, JStr ''''}. \<forall>pre t m post.
            tr = pre @ MwRun t m (Next v) # post \<longrightarrow>
              out \<noteq> Handled \<and> (\<forall>e\<in>set post. \<not> isMwRun e \<and> \<not> isHandlerRun e)) \<and>
         (\<forall>pre t m post. tr = pre @ MwRun t m Never # post \<longrightarrow> post = [] \<and> out = Stalled) \<and>
         (\<forall>pre t m x post. tr = pre @ MwRun t m (Throw x) # post \<longrightarrow>
            post = [] \<and> out = Rejected x) \<and>
         (\<forall>pre t em i post. tr = pre @ ErrRun t em i Never # post \<longrightarrow>
            post = [] \<and> out = Stalled) \<and>
         (\<forall>pre t em i x post. tr = pre @ ErrRun t em i (Throw x) # post \<longrightarrow>
            post = [] \<and> out = Rejected x)"
proof -
  let ?P = "pipeline this router route"
  let ?E = "tierErrs this router route"
  from assms have d: "dispatch (awaited B) this router route req res = (out, tr, req', res')"
    by (simp add: toListener_matched)
  have mwf: "fst (mwFun (awaited B) m rq rs) = newPromise (fst (mwBody B m rq rs))" for m rq rs
    by (simp add: awaited_def split: prod.splits)
  have erf: "fst (errFun (awaited B) e i rq rs) = newPromise (fst (errBody B e i rq rs))"
    for e i rq rs
    by (simp add: awaited_def split: prod.splits)
  have l1: "\<exists>rq rs. s = newPromise (fst (mwBody B m rq rs))" if "MwRun t m s \<in> set tr" for t m s
    using dispatch_calls[OF d, where t'=t and m=m and s=s] that by (simp add: mwf)
  have l2: "\<exists>rq rs. s = newPromise (fst (errBody B em i rq rs))"
    if "ErrRun t em i s \<in> set tr" for t em i s
    using dispatch_calls[OF d, where t'=t and e=em and i=i and s=s] that by (simp add: erf)
  have stop: "(s = Never \<longrightarrow> post = [] \<and> out = Stalled) \<and>
              (\<forall>x. s = Throw x \<longrightarrow> post = [] \<and> out = Rejected x)"
    if "tr = pre @ MwRun t m s # post" for pre t m s post
    using d
  proof (cases rule: dispatch_shape)
    case handled
    have "MwRun t m s \<in> set tr" using that by simp
    with handled(1) show ?thesis by (auto simp: passed_def)
  next
    case stopped
    from pipeTrace_stop[OF stopped[unfolded that]] show ?thesis by simp
  qed
  have estop: "(s = Never \<longrightarrow> post = [] \<and> out = Stalled) \<and>
              (\<forall>x. s = Throw x \<longrightarrow> post = [] \<and> out = Rejected x)"
    if "tr = pre @ ErrRun t em i s # post" for pre t em i s post
    using d
  proof (cases rule: dispatch_shape)
    case handled
    have "ErrRun t em i s \<in> set tr" using that by simp
    with handled(1) show ?thesis by (auto simp: passed_def)
  next
    case stopped
    from pipeTrace_err_stop[OF stopped[unfolded that]] show ?thesis by simp
  qed
  note old = undefined_is_success[OF assms]
  have a: "\<forall>t m s. MwRun t m s \<in> set tr \<longrightarrow>
            (\<exists>rq rs. s = newPromise (fst (mwBody B m rq rs)))"
    using l1 by blast
  have b: "\<forall>t em i s. ErrRun t em i s \<in> set tr \<longrightarrow>
            (\<exists>rq rs. s = newPromise (fst (errBody B em i rq rs)))"
    using l2 by blast
  have s1: "\<forall>pre t m post. tr = pre @ MwRun t m Never # post \<longrightarrow> post = [] \<and> out = Stalled"
    using stop by blast
  have s2: "\<forall>pre t m x post. tr = pre @ MwRun t m (Throw x) # post \<longrightarrow>
            post = [] \<and> out = Rejected x"
    using stop by blast
  have s3: "\<forall>pre t em i post. tr = pre @ ErrRun t em i Never # post \<longrightarrow>
            post = [] \<and> out = Stalled"
    using estop by blast
  have s4: "\<forall>pre t em i x post. tr = pre @ ErrRun t em i (Throw x) # post \<longrightarrow>
            post = [] \<and> out = Rejected x"
    using estop by blast
  have k1: "\<forall>c v. newPromise c = Next v \<longleftrightarrow>
            c = CallsNext (Plain v) \<or> c = CallsNext (Thenable (Fulfils v))"
    by (intro allI) (rule newPromise_Next)
  have k2: "\<forall>c x. newPromise c = Throw x \<longleftrightarrow>
            c = Throws x \<or> c = CallsNext (Thenable (Rejects x))"
    by (intro allI) (rule newPromise_Throw)
  have k3: "\<forall>c. newPromise c = Never \<longleftrightarrow> c = NeverCalls \<or> c = CallsNext (Thenable Pends)"
    by (intro allI) (rule newPromise_Never)
  note c2 = conjunct2
  from a b k1 k2 k3 old[THEN conjunct1] old[THEN c2, THEN conjunct1]
    old[THEN c2, THEN c2, THEN conjunct1] old[THEN c2, THEN c2, THEN c2, THEN conjunct1]
    old[THEN c2, THEN c2, THEN c2, THEN c2] s1 s2 s3 s4
  show ?thesis
    by (intro conjI)
qed

theorem C10_witness:
  "findMatch (routers exApp) exReq = Some (exRouter, exRoute) \<and>
   toListener
     (awaited (exBodies (\<lambda>m. if m = 3 then CallsNext (Plain Null)
                              else if m = 2 then CallsNext (Thenable (Fulfils Undefined))
                              else CallsNext (Plain Undefined))
                        (\<lambda>e. CallsNext (Plain (JBool False)))))
     exApp exReq exRes =
     (Unrecovered (JBool False),
      [MwRun AppTier 1 (Next Undefined), MwRun RouterTier 2 (Next Undefined)] @
        MwRun RouteTier 3 (Next Null) # [ErrRun RouteTier 13 Null (Next (JBool False))],
      exReq\<lparr>pathRegex := Some exPath\<rparr>, exRes\<lparr>statusCode := 400\<rparr>) \<and>
   Null \<in> {Null, JBool False, JNum 0, JStr ''''} \<and>
   Unrecovered (JBool False) \<noteq> Handled \<and>
   list_all (\<lambda>e. \<not> isMwRun e \<and> \<not> isHandlerRun e)
     [ErrRun RouteTier 13 Null (Next (JBool False))]"
proof -
  let ?B = "exBodies (\<lambda>m. if m = 3 then CallsNext (Plain Null)
                              else if m = 2 then CallsNext (Thenable (Fulfils Undefined))
                              else CallsNext (Plain Undefined))
                        (\<lambda>e. CallsNext (Plain (JBool False)))"
  let ?pre = "[MwRun AppTier 1 (Next Undefined), MwRun RouterTier 2 (Next Undefined)]"
  let ?post = "[ErrRun RouteTier 13 Null (Next (JBool False))]"
  let ?tr = "?pre @ MwRun RouteTier 3 (Next Null) # ?post"
  have m: "findMatch (routers exApp) exReq = Some (exRouter, exRoute)"
    by (simp add: ex_defs)
  have r: "toListener (awaited ?B) exApp exReq exRes =
         (Unrecovered (JBool False), ?tr, exReq\<lparr>pathRegex := Some exPath\<rparr>,
          exRes\<lparr>statusCode := 400\<rparr>)"
    by (simp add: awaited_def exBodies_def ex_defs)
  have n: "Null \<in> {Null, JBool False, JNum 0, JStr ''''}"
    by simp
  note c2 = conjunct2
  from C10_settled_undefined_is_success[OF m r, THEN c2, THEN c2, THEN c2, THEN c2, THEN c2,
      THEN c2, THEN c2, THEN c2, THEN c2, THEN conjunct1]
  have f: "\<forall>v\<in>{Null, JBool False, JNum 0, JStr ''''}. \<forall>pre t m post.
            ?tr = pre @ MwRun t m (Next v) # post \<longrightarrow>
              Unrecovered (JBool False) \<noteq> Handled \<and>
              (\<forall>e\<in>set post. \<not> isMwRun e \<and> \<not> isHandlerRun e)"
    .
  from f n
  have c: "Unrecovered (JBool False) \<noteq> Handled \<and>
       (\<forall>e\<in>set ?post. \<not> isMwRun e \<and> \<not> isHandlerRun e)"
    by blast
  from c have c1: "Unrecovered (JBool False) \<noteq> Handled"
    by (rule conjunct1)
  from c have c2: "list_all (\<lambda>e. \<not> isMwRun e \<and> \<not> isHandlerRun e) ?post"
    unfolding list_all_iff by (rule conjunct2)
  from m r n c1 c2 show ?thesis
    by (intro conjI)
qed

section \<open>The registry\<close>

text \<open>
  Claim C4. A registration that succeeds stores the new route under the key made of the
  method, a \<open>|\<close> and the source of the pattern, in place of whatever was stored under that key:
  the router's map is the old one updated at that one key, every other key keeps its route and
  its place, and the middlewares of the router stay as they are. A lookup then returns the new
  route, whose listener and method are the ones given, whenever its method and pattern make
  that key, and returns what it returned before the registration whenever they make another.
  Registering the same path and method again succeeds as well, leaves the keys as they are, and
  the lookup returns the newer route. The same holds for the application, which registers into
  its first router, leaves its other routers and its own middlewares as they are, and looks the
  first router up first. A registration succeeds whenever the pattern can be made, and always
  when the path is given as a \<open>RegExp\<close>.
\<close>

theorem C4_register_then_find:
  "(Router_route pth m l rt = Inr (r, rt') \<longrightarrow>
      Router_findRoute pth m rt' = Inr (Some r) \<and> listener r = l \<and> route.method r = m \<and>
      toRegExp pth = Inr (path r) \<and>
      routeKey m (path r) = m @ ''|'' @ source (path r) \<and>
      map_of (routes rt') = (map_of (routes rt))(m @ ''|'' @ source (path r) \<mapsto> r) \<and>
      map fst (routes rt') =
        (if m @ ''|'' @ source (path r) \<in> fst ` set (routes rt) then map fst (routes rt)
         else map fst (routes rt) @ [m @ ''|'' @ source (path r)]) \<and>
      middlewares rt' = middlewares rt \<and> errMiddlewares rt' = errMiddlewares rt \<and>
      (\<forall>pth2 m2 p2. toRegExp pth2 = Inr p2 \<longrightarrow>
         Router_findRoute pth2 m2 rt' =
           (if m2 @ ''|'' @ source p2 = m @ ''|'' @ source (path r) then Inr (Some r)
            else Router_findRoute pth2 m2 rt)) \<and>
      (\<exists>r2 rt2. Router_route pth m l2 rt' = Inr (r2, rt2) \<and>
         Router_findRoute pth m rt2 = Inr (Some r2) \<and> listener r2 = l2 \<and>
         map fst (routes rt2) = map fst (routes rt') \<and>
         map_of (routes rt2) = (map_of (routes rt'))(m @ ''|'' @ source (path r) \<mapsto> r2))) \<and>
   (Simpress_route pth m l app = Inr (r, app') \<longrightarrow>
      Simpress_findRoute pth m app' = Inr (Some r) \<and> listener r = l \<and> route.method r = m \<and>
      toRegExp pth = Inr (path r) \<and>
      routers app \<noteq> [] \<and> routers app' \<noteq> [] \<and>
      tl (routers app') = tl (routers app) \<and>
      map_of (routes (hd (routers app'))) =
        (map_of (routes (hd (routers app))))(m @ ''|'' @ source (path r) \<mapsto> r) \<and>
      map fst (routes (hd (routers app'))) =
        (if m @ ''|'' @ source (path r) \<in> fst ` set (routes (hd (routers app)))
         then map fst (routes (hd (routers app)))
         else map fst (routes (hd (routers app))) @ [m @ ''|'' @ source (path r)]) \<and>
      middlewares (hd (routers app')) = middlewares (hd (routers app)) \<and>
      errMiddlewares (hd (routers app')) = errMiddlewares (hd (routers app)) \<and>
      middlewares app' = middlewares app \<and> errMiddlewares app' = errMiddlewares app \<and>
      (\<forall>pth2 m2 p2. toRegExp pth2 = Inr p2 \<longrightarrow>
         Simpress_findRoute pth2 m2 app' =
           (if m2 @ ''|'' @ source p2 = m @ ''|'' @ source (path r) then Inr (Some r)
            else Simpress_findRoute pth2 m2 app)) \<and>
      (\<exists>r2 app2. Simpress_route pth m l2 app' = Inr (r2, app2) \<and>
         Simpress_findRoute pth m app2 = Inr (Some r2) \<and> listener r2 = l2 \<and>
         map (\<lambda>rt. map fst (routes rt)) (routers app2) =
           map (\<lambda>rt. map fst (routes rt)) (routers app'))) \<and>
   (\<forall>rx. toRegExp pth = Inr rx \<longrightarrow>
      (\<exists>rt'. Router_route pth m l rt = Inr (Route rx m l, rt')) \<and>
      (routers app \<noteq> [] \<longrightarrow> (\<exists>app'. Simpress_route pth m l app = Inr (Route rx m l, app')))) \<and>
   (\<exists>rt'. Router_route (PRegExp rx) m l rt = Inr (Route rx m l, rt') \<and>
      Router_findRoute (PRegExp rx) m rt' = Inr (Some (Route rx m l)))"
proof (intro conjI impI allI)
  assume a: "Router_route pth m l rt = Inr (r, rt')"
  then obtain p where p: "toRegExp pth = Inr p" and r: "r = Route p m l"
    and rt': "rt' = rt\<lparr>routes := mapSet (routeKey m p) r (routes rt)\<rparr>"
    by (auto simp: Router_route_def Let_def split: sum.splits)
  from r have pr: "path r = p" by (simp add: Route_def)
  have k: "m @ ''|'' @ source p = routeKey m p" by (simp add: routeKey_def)
  show "Router_findRoute pth m rt' = Inr (Some r)"
    by (simp add: Router_findRoute_def p rt' mapGet_mapSet)
  show "listener r = l" "route.method r = m" by (simp_all add: r Route_def)
  show "toRegExp pth = Inr (path r)" by (simp add: p pr)
  show "routeKey m (path r) = m @ ''|'' @ source (path r)" by (simp add: routeKey_def)
  show "map_of (routes rt') = (map_of (routes rt))(m @ ''|'' @ source (path r) \<mapsto> r)"
    by (simp only: pr k) (simp add: rt' map_of_mapSet)
  show "map fst (routes rt') =
        (if m @ ''|'' @ source (path r) \<in> fst ` set (routes rt) then map fst (routes rt)
         else map fst (routes rt) @ [m @ ''|'' @ source (path r)])"
    by (simp only: pr k) (simp add: rt' keys_mapSet)
  show "middlewares rt' = middlewares rt" "errMiddlewares rt' = errMiddlewares rt"
    by (simp_all add: rt')
  show "Router_findRoute pth2 m2 rt' =
           (if m2 @ ''|'' @ source p2 = m @ ''|'' @ source (path r) then Inr (Some r)
            else Router_findRoute pth2 m2 rt)" if "toRegExp pth2 = Inr p2" for pth2 m2 p2
    using that by (simp add: Router_findRoute_def rt' pr mapGet_def map_of_mapSet routeKey_def)
  show "\<exists>r2 rt2. Router_route pth m l2 rt' = Inr (r2, rt2) \<and>
         Router_findRoute pth m rt2 = Inr (Some r2) \<and> listener r2 = l2 \<and>
         map fst (routes rt2) = map fst (routes rt') \<and>
         map_of (routes rt2) = (map_of (routes rt'))(m @ ''|'' @ source (path r) \<mapsto> r2)"
    by (simp only: pr k) (simp add: Router_route_def Router_findRoute_def p rt' mapGet_mapSet
          keys_mapSet_again map_of_mapSet Route_def Let_def)
next
  assume a: "Simpress_route pth m l app = Inr (r, app')"
  then obtain p r0 rs where p: "toRegExp pth = Inr p" and r: "r = Route p m l"
    and rs: "routers app = r0 # rs"
    and app': "app' = app\<lparr>routers := r0\<lparr>routes := mapSet (routeKey m p) r (routes r0)\<rparr> # rs\<rparr>"
    by (auto simp: Simpress_route_def Let_def split: sum.splits list.splits)
  from r have pr: "path r = p" by (simp add: Route_def)
  have k: "m @ ''|'' @ source p = routeKey m p" by (simp add: routeKey_def)
  show "Simpress_findRoute pth m app' = Inr (Some r)"
    by (simp add: Simpress_findRoute_def p app' mapGet_mapSet)
  show "listener r = l" "route.method r = m" by (simp_all add: r Route_def)
  show "toRegExp pth = Inr (path r)" by (simp add: p r Route_def)
  show "routers app \<noteq> []" "routers app' \<noteq> []" "tl (routers app') = tl (routers app)"
    by (simp_all add: rs app')
  show "map_of (routes (hd (routers app'))) =
        (map_of (routes (hd (routers app))))(m @ ''|'' @ source (path r) \<mapsto> r)"
    by (simp only: pr k) (simp add: rs app' map_of_mapSet)
  show "map fst (routes (hd (routers app'))) =
        (if m @ ''|'' @ source (path r) \<in> fst ` set (routes (hd (routers app)))
         then map fst (routes (hd (routers app)))
         else map fst (routes (hd (routers app))) @ [m @ ''|'' @ source (path r)])"
    by (simp only: pr k) (simp add: rs app' keys_mapSet)
  show "middlewares (hd (routers app')) = middlewares (hd (routers app))"
    "errMiddlewares (hd (routers app')) = errMiddlewares (hd (routers app))"
    "middlewares app' = middlewares app" "errMiddlewares app' = errMiddlewares app"
    by (simp_all add: rs app')
  show "Simpress_findRoute pth2 m2 app' =
           (if m2 @ ''|'' @ source p2 = m @ ''|'' @ source (path r) then Inr (Some r)
            else Simpress_findRoute pth2 m2 app)" if "toRegExp pth2 = Inr p2" for pth2 m2 p2
    using that
    by (simp add: Simpress_findRoute_def app' rs pr mapGet_def map_of_mapSet routeKey_def)
  show "\<exists>r2 app2. Simpress_route pth m l2 app' = Inr (r2, app2) \<and>
         Simpress_findRoute pth m app2 = Inr (Some r2) \<and> listener r2 = l2 \<and>
         map (\<lambda>rt. map fst (routes rt)) (routers app2) =
           map (\<lambda>rt. map fst (routes rt)) (routers app')"
    by (simp add: Simpress_route_def Simpress_findRoute_def p app' mapGet_mapSet
          keys_mapSet_again Route_def Let_def)
next
  fix rx assume "toRegExp pth = Inr rx"
  then show "\<exists>rt'. Router_route pth m l rt = Inr (Route rx m l, rt')"
    by (simp add: Router_route_def Let_def)
next
  fix rx assume "toRegExp pth = Inr rx" "routers app \<noteq> []"
  then show "\<exists>app'. Simpress_route pth m l app = Inr (Route rx m l, app')"
    by (cases "routers app") (simp_all add: Simpress_route_def Let_def)
next
  show "\<exists>rt'. Router_route (PRegExp rx) m l rt = Inr (Route rx m l, rt') \<and>
      Router_findRoute (PRegExp rx) m rt' = Inr (Some (Route rx m l))"
    by (simp add: Router_route_def Router_findRoute_def Let_def mapGet_mapSet)
qed


theorem C4_witness:
  "Router_route (PStr ''/b'') ''POST'' 2 exRouter = Inr (Route exPathB ''POST'' 2, exRouterB) \<and>
   Router_findRoute (PStr ''/b'') ''POST'' exRouterB = Inr (Some (Route exPathB ''POST'' 2)) \<and>
   Router_findRoute (PRegExp exPath) ''GET'' exRouterB = Inr (Some exRoute) \<and>
   Router_findRoute (PStr ''/b'') ''GET'' exRouterB = Inr None \<and>
   map fst (routes exRouterB) = [''GET|'' @ source exPath, ''POST|'' @ source exPathB] \<and>
   Simpress_route (PRegExp exPath) ''GET'' 5 exApp =
     Inr (Route exPath ''GET'' 5, exApp\<lparr>routers := [exRouter5]\<rparr>) \<and>
   Simpress_findRoute (PRegExp exPath) ''GET'' (exApp\<lparr>routers := [exRouter5]\<rparr>) =
     Inr (Some (Route exPath ''GET'' 5)) \<and>
   Simpress_findRoute (PRegExp exPath) ''GET'' exApp = Inr (Some exRoute) \<and>
   Simpress_findRoute (PStr ''/b'') ''GET'' (exApp\<lparr>routers := [exRouter5]\<rparr>) = Inr None"
proof -
  have p: "toRegExp (PStr ''/b'') = Inr exPathB"
    unfolding exPathB_def by (rule toRegExp_plain) (simp add: isSyntaxChar_def bslash_def)
  have q: "toRegExp (PRegExp exPath) = Inr exPath"
    by simp
  have a: "Router_route (PStr ''/b'') ''POST'' 2 exRouter = Inr (Route exPathB ''POST'' 2, exRouterB)"
    by (simp add: Router_route_def p[unfolded toRegExp.simps] Let_def exRouterB_def exRouter_def
          use_def useForError_def Router_def routeKey_def)
  have b: "Simpress_route (PRegExp exPath) ''GET'' 5 exApp =
     Inr (Route exPath ''GET'' 5, exApp\<lparr>routers := [exRouter5]\<rparr>)"
    by (simp add: Simpress_route_def Let_def exRouter5_def exRouter_def exApp_def
          use_def useForError_def Router_def Simpress_def)
  have k1: "''GET'' @ ''|'' @ source exPath \<noteq> ''POST'' @ ''|'' @ source (path (Route exPathB ''POST'' 2))"
    by simp
  have k2: "''GET'' @ ''|'' @ source exPathB \<noteq> ''POST'' @ ''|'' @ source (path (Route exPathB ''POST'' 2))"
    by simp
  have k3: "''GET'' @ ''|'' @ source exPathB \<noteq> ''GET'' @ ''|'' @ source (path (Route exPath ''GET'' 5))"
    by (simp add: exPathB_def exPath_def Route_def escapeSource_def pathPattern_def
          escapeChar_def classAfter_def bslash_def)
  have o1: "Router_findRoute (PRegExp exPath) ''GET'' exRouter = Inr (Some exRoute)"
    by (simp add: Router_findRoute_def exRouter_def use_def useForError_def Router_def mapGet_def)
  have o2: "Router_findRoute (PStr ''/b'') ''GET'' exRouter = Inr None"
    using k3
    by (simp add: Router_findRoute_def p[unfolded toRegExp.simps] exRouter_def use_def
          useForError_def Router_def mapGet_def routeKey_def Route_def)
  have o3: "Simpress_findRoute (PRegExp exPath) ''GET'' exApp = Inr (Some exRoute)"
    by (simp add: Simpress_findRoute_def exApp_def exRouter_def use_def useForError_def
          Router_def Simpress_def mapGet_def)
  note c = C4_register_then_find[where pth = "PStr ''/b''" and m = "''POST''" and l = 2
      and rt = exRouter and r = "Route exPathB ''POST'' 2" and rt' = exRouterB
      and app = Simpress and app' = Simpress]
  note d = C4_register_then_find[where pth = "PRegExp exPath" and m = "''GET''" and l = 5
      and app = exApp and r = "Route exPath ''GET'' 5" and app' = "exApp\<lparr>routers := [exRouter5]\<rparr>"
      and rt = Router and rt' = Router]
  from c a have c1: "Router_findRoute (PStr ''/b'') ''POST'' exRouterB =
      Inr (Some (Route exPathB ''POST'' 2))"
    by blast
  from c a have f1: "\<forall>pth2 m2 p2. toRegExp pth2 = Inr p2 \<longrightarrow>
         Router_findRoute pth2 m2 exRouterB =
           (if m2 @ ''|'' @ source p2 = ''POST'' @ ''|'' @ source (path (Route exPathB ''POST'' 2))
            then Inr (Some (Route exPathB ''POST'' 2))
            else Router_findRoute pth2 m2 exRouter)"
    by blast
  from f1 q k1 o1 have c2: "Router_findRoute (PRegExp exPath) ''GET'' exRouterB = Inr (Some exRoute)"
    by metis
  from f1 p k2 o2 have c3: "Router_findRoute (PStr ''/b'') ''GET'' exRouterB = Inr None"
    by metis
  from c a have "map fst (routes exRouterB) =
        (if ''POST'' @ ''|'' @ source (path (Route exPathB ''POST'' 2)) \<in> fst ` set (routes exRouter)
         then map fst (routes exRouter)
         else map fst (routes exRouter) @ [''POST'' @ ''|'' @ source (path (Route exPathB ''POST'' 2))])"
    by blast
  then have c4: "map fst (routes exRouterB) = [''GET|'' @ source exPath, ''POST|'' @ source exPathB]"
    by (simp add: exRouter_def use_def useForError_def Router_def routeKey_def Route_def)
  from d b have d1: "Simpress_findRoute (PRegExp exPath) ''GET'' (exApp\<lparr>routers := [exRouter5]\<rparr>) =
     Inr (Some (Route exPath ''GET'' 5))"
    by blast
  from d b have f2: "\<forall>pth2 m2 p2. toRegExp pth2 = Inr p2 \<longrightarrow>
         Simpress_findRoute pth2 m2 (exApp\<lparr>routers := [exRouter5]\<rparr>) =
           (if m2 @ ''|'' @ source p2 = ''GET'' @ ''|'' @ source (path (Route exPath ''GET'' 5))
            then Inr (Some (Route exPath ''GET'' 5))
            else Simpress_findRoute pth2 m2 exApp)"
    by blast
  have o4: "Simpress_findRoute (PStr ''/b'') ''GET'' exApp = Inr None"
    using k3
    by (simp add: Simpress_findRoute_def p[unfolded toRegExp.simps] exApp_def exRouter_def use_def
          useForError_def Router_def Simpress_def mapGet_def routeKey_def Route_def)
  from f2 p k3 o4 have d2: "Simpress_findRoute (PStr ''/b'') ''GET'' (exApp\<lparr>routers := [exRouter5]\<rparr>) = Inr None"
    by metis
  from a c1 c2 c3 c4 b d1 o3 d2 show ?thesis
    by (intro conjI)
qed

section \<open>Patterns made from strings\<close>

text \<open>
  Claim C6. The pattern made from a string path, whatever the path, tests true on every
  string that contains a \<open>?\<close>: the last alternative of the pattern is the bare \<open>\?\<close>. So a
  route registered from a string matches every request of its method whose URL carries a
  query string, and with such a route in the application no such request is left unmatched.
\<close>

theorem C6_query_string_matches_string_route:
  assumes "toRegExp (PStr p) = Inr r"
      and "CHR ''?'' \<in> set (url req)"
  shows "test r (url req) \<and>
         (\<forall>m l rt rte rt'. Router_route (PStr p) m l rt = Inr (rte, rt') \<and>
            request.method req = m \<longrightarrow> matches rte req) \<and>
         (\<forall>m l app rte app'. Simpress_route (PStr p) m l app = Inr (rte, app') \<and>
            request.method req = m \<longrightarrow>
              matches rte req \<and> findMatch (routers app') req \<noteq> None)"
proof -
  from toRegExp_question[OF assms] have t: "test r (url req)" .
  have "matches rte req"
    if "Router_route (PStr p) m l rt = Inr (rte, rt')" "request.method req = m"
    for m l rt rte rt'
    using that assms(1) t
    by (auto simp: Router_route_def Let_def Route_def matches_def simp del: toRegExp.simps)
  moreover have "matches rte req \<and> findMatch (routers app') req \<noteq> None"
    if a: "Simpress_route (PStr p) m l app = Inr (rte, app')" and b: "request.method req = m"
    for m l app rte app'
  proof -
    from a assms(1) obtain r0 rs where rte: "rte = Route r m l"
      and app': "routers app' = r0\<lparr>routes := mapSet (routeKey m r) rte (routes r0)\<rparr> # rs"
      by (auto simp: Simpress_route_def Let_def simp del: toRegExp.simps split: list.splits)
    from rte b t have m: "matches rte req"
      by (simp add: matches_def Route_def)
    have "(routeKey m r, rte) \<in> set (routes (r0\<lparr>routes := mapSet (routeKey m r) rte (routes r0)\<rparr>))"
      by (simp add: mapSet_member)
    with m app' have "\<not> (\<forall>router\<in>set (routers app'). \<forall>kr\<in>set (routes router).
        \<not> matches (snd kr) req)"
      by (metis list.set_intros(1) snd_conv)
    then have "findMatch (routers app') req \<noteq> None"
      by (simp add: findMatch_None)
    with m show ?thesis by simp
  qed
  ultimately show ?thesis using t by blast
qed

theorem C6_witness:
  "toRegExp (PStr ''/echo'') = Inr exEchoPath \<and>
   CHR ''?'' \<in> set (url (exReq\<lparr>url := ''/users/7?x=1''\<rparr>)) \<and>
   test exEchoPath (url (exReq\<lparr>url := ''/users/7?x=1''\<rparr>))"
proof -
  have p: "toRegExp (PStr ''/echo'') = Inr exEchoPath"
    unfolding exEchoPath_def by (rule toRegExp_plain) (simp add: isSyntaxChar_def bslash_def)
  have q: "CHR ''?'' \<in> set (url (exReq\<lparr>url := ''/users/7?x=1''\<rparr>))"
    by simp
  from C6_query_string_matches_string_route[OF p q]
  have "test exEchoPath (url (exReq\<lparr>url := ''/users/7?x=1''\<rparr>))"
    by (rule conjunct1)
  with p q show ?thesis by (intro conjI)
qed

text \<open>
  A string path is not escaped when its pattern is made: the pattern of the path \<open>/a.c\<close>
  tests true on \<open>/abc\<close>, which is neither the path nor the path followed by \<open>/\<close>.
\<close>

theorem C7_counterexample:
  "accepts (PStr ''/a.c'') ''/abc'' \<and> ''/abc'' \<noteq> ''/a.c'' \<and> ''/abc'' \<noteq> ''/a.c/''"
  unfolding accepts_def by code_simp

text \<open>
  Claim C7, as the code has it. The string is not escaped: it is read as pattern text. Whenever
  \<open>^\<close> followed by the path can be read to its end, outside any group, class or escape, the
  pattern made has the alternatives that were read, the last of them followed by an optional
  \<open>/\<close> and the end of the string, and the bare \<open>\?\<close> as one more alternative; on a string
  without \<open>?\<close> it tests true exactly when one of the alternatives read matches somewhere. So
  the syntax characters of the path keep their meaning. A \<open>.\<close> between characters that stand
  for themselves matches any one character but a line terminator, and a \<open>(\<close> between such
  characters makes the registration fail. For a path without syntax characters the registration
  succeeds, and on a string without \<open>?\<close> the pattern tests true exactly when the string is the
  path or the path followed by one \<open>/\<close>.
\<close>

theorem C7_unescaped_path_pattern:
  assumes "CHR ''?'' \<notin> set u"
  shows "(\<forall>st. run initState (''^'' @ p) = Inr st \<and> stack st = [] \<and>
              (mode st = Normal \<or> mode st = AfterQuant) \<longrightarrow>
            toRegExp (PStr p) =
              Inr \<lparr>source = escapeSource (pathPattern p),
                   ast = mkDisj (alts st @ [mkSeq (seq st @ [Opt (Lit (CHR ''/'')), Eol]),
                                            mkSeq [Lit (CHR ''?'')]])\<rparr> \<and>
            (accepts (PStr p) u \<longleftrightarrow>
               (\<exists>i\<le>length u.
                  ends (mkDisj (alts st @ [mkSeq (seq st @ [Opt (Lit (CHR ''/'')), Eol])]))
                    (i, drop i u) \<noteq> []))) \<and>
         (\<forall>a b. p = a @ ''.'' @ b \<and> (\<forall>c\<in>set a. \<not> isSyntaxChar c) \<and> (\<forall>c\<in>set b. \<not> isSyntaxChar c) \<longrightarrow>
            (accepts (PStr p) u \<longleftrightarrow>
               (\<exists>c. \<not> isLineTerminator c \<and> (u = a @ c # b \<or> u = a @ c # b @ ''/'')))) \<and>
         (\<forall>a b. p = a @ ''('' @ b \<and> (\<forall>c\<in>set a. \<not> isSyntaxChar c) \<and> (\<forall>c\<in>set b. \<not> isSyntaxChar c) \<longrightarrow>
            toRegExp (PStr p) = Inl SyntaxError) \<and>
         ((\<forall>c\<in>set p. \<not> isSyntaxChar c) \<longrightarrow>
            toRegExp (PStr p) = Inr \<lparr>source = escapeSource (pathPattern p), ast = literalPath p\<rparr> \<and>
            (accepts (PStr p) u \<longleftrightarrow> u = p \<or> u = p @ ''/''))"
proof -
  have paren: "toRegExp (PStr p) = Inl SyntaxError"
    if "p = a @ ''('' @ b" "\<forall>c\<in>set a. \<not> isSyntaxChar c" "\<forall>c\<in>set b. \<not> isSyntaxChar c" for a b
    using parse_open_paren[OF that(2,3)] that(1) by (simp add: RegExp_def)
  have gen: "toRegExp (PStr p) =
              Inr \<lparr>source = escapeSource (pathPattern p),
                   ast = mkDisj (alts st @ [mkSeq (seq st @ [Opt (Lit (CHR ''/'')), Eol]),
                                            mkSeq [Lit (CHR ''?'')]])\<rparr> \<and>
            (accepts (PStr p) u \<longleftrightarrow>
               (\<exists>i\<le>length u.
                  ends (mkDisj (alts st @ [mkSeq (seq st @ [Opt (Lit (CHR ''/'')), Eol])]))
                    (i, drop i u) \<noteq> []))"
    if st: "run initState (''^'' @ p) = Inr st" "stack st = []"
      "mode st = Normal \<or> mode st = AfterQuant" for p st
  proof -
    let ?xs = "alts st @ [mkSeq (seq st @ [Opt (Lit (CHR ''/'')), Eol])]"
    from parse_unescaped[OF st]
    have r: "toRegExp (PStr p) =
        Inr \<lparr>source = escapeSource (pathPattern p), ast = mkDisj (?xs @ [mkSeq [Lit (CHR ''?'')]])\<rparr>"
      by (simp add: RegExp_def)
    have "?xs \<noteq> []" by simp
    from test_unescaped[OF assms this] r show ?thesis
      unfolding accepts_def by simp
  qed
  have dot: "accepts (PStr p) u \<longleftrightarrow>
               (\<exists>c. \<not> isLineTerminator c \<and> (u = a @ c # b \<or> u = a @ c # b @ ''/''))"
    if p: "p = a @ ''.'' @ b" and a: "\<forall>c\<in>set a. \<not> isSyntaxChar c" and b: "\<forall>c\<in>set b. \<not> isSyntaxChar c"
    for a b
  proof -
    let ?st = "initState\<lparr>seq := Bol # map Lit a @ Dot # map Lit b\<rparr>"
    have "run initState (''^'' @ p) = Inr ?st"
      unfolding p by (rule run_dot[OF a b])
    from gen[OF this] have "accepts (PStr p) u \<longleftrightarrow>
        (\<exists>i\<le>length u. ends (mkSeq ((Bol # map Lit a @ Dot # map Lit b) @ [Opt (Lit (CHR ''/'')), Eol]))
            (i, drop i u) \<noteq> [])"
      by (simp add: initState_def)
    then show ?thesis
      unfolding ends_dot_path by auto
  qed
  have plain: "toRegExp (PStr p) = Inr \<lparr>source = escapeSource (pathPattern p), ast = literalPath p\<rparr> \<and>
            (accepts (PStr p) u \<longleftrightarrow> u = p \<or> u = p @ ''/'')"
    if "\<forall>c\<in>set p. \<not> isSyntaxChar c"
  proof -
    from toRegExp_plain[OF that]
    have 2: "toRegExp (PStr p) = Inr \<lparr>source = escapeSource (pathPattern p), ast = literalPath p\<rparr>" .
    from test_literalPath[OF assms] have "accepts (PStr p) u \<longleftrightarrow> u = p \<or> u = p @ ''/''"
      unfolding accepts_def 2 by simp
    with 2 show ?thesis by simp
  qed
  from gen dot paren plain show ?thesis by blast
qed


theorem C7_witness:
  "run initState (''^'' @ ''/a.c'') =
     Inr (initState\<lparr>seq := [Bol, Lit (CHR ''/''), Lit (CHR ''a''), Dot, Lit (CHR ''c'')]\<rparr>) \<and>
   toRegExp (PStr ''/a.c'') =
     Inr \<lparr>source = escapeSource (pathPattern ''/a.c''),
          ast = Alt (mkSeq [Bol, Lit (CHR ''/''), Lit (CHR ''a''), Dot, Lit (CHR ''c''),
                            Opt (Lit (CHR ''/'')), Eol])
                    (mkSeq [Lit (CHR ''?'')])\<rparr> \<and>
   accepts (PStr ''/a.c'') ''/abc'' \<and> accepts (PStr ''/a.c'') ''/a.c/'' \<and>
   \<not> accepts (PStr ''/a.c'') ''/ac'' \<and>
   toRegExp (PStr ''/a(b'') = Inl SyntaxError \<and>
   toRegExp (PStr ''/echo'') = Inr exEchoPath \<and>
   accepts (PStr ''/echo'') ''/echo/'' \<and> \<not> accepts (PStr ''/echo'') ''/echo/x'' \<and>
   \<not> accepts (PStr ''/echo'') ''/v1/echo''"
proof -
  let ?st = "initState\<lparr>seq := [Bol, Lit (CHR ''/''), Lit (CHR ''a''), Dot, Lit (CHR ''c'')]\<rparr>"
  have r: "run initState (''^'' @ ''/a.c'') = Inr ?st"
    by (simp add: step_defs initState_def)
  have s: "stack ?st = []" and m: "mode ?st = Normal \<or> mode ?st = AfterQuant"
    by (simp_all add: initState_def)
  have q0: "CHR ''?'' \<notin> set ''/abc''" and q1: "CHR ''?'' \<notin> set ''/echo/''"
    and q2: "CHR ''?'' \<notin> set ''/echo/x''" and q3: "CHR ''?'' \<notin> set ''/v1/echo''"
    and q4: "CHR ''?'' \<notin> set ''/a.c/''" and q5: "CHR ''?'' \<notin> set ''/ac''"
    by simp_all
  have pa: "\<forall>c\<in>set ''/a''. \<not> isSyntaxChar c" and pc: "\<forall>c\<in>set ''c''. \<not> isSyntaxChar c"
    and pb: "\<forall>c\<in>set ''b''. \<not> isSyntaxChar c"
    and pe: "\<forall>c\<in>set ''/echo''. \<not> isSyntaxChar c"
    by (simp_all add: isSyntaxChar_def bslash_def)
  have d: "''/a.c'' = ''/a'' @ ''.'' @ ''c''" and g: "''/a(b'' = ''/a'' @ ''('' @ ''b''"
    by simp_all
  from C7_unescaped_path_pattern[OF q0, of "''/a.c''"] r s m
  have a1: "toRegExp (PStr ''/a.c'') =
     Inr \<lparr>source = escapeSource (pathPattern ''/a.c''),
          ast = mkDisj (alts ?st @ [mkSeq (seq ?st @ [Opt (Lit (CHR ''/'')), Eol]),
                                    mkSeq [Lit (CHR ''?'')]])\<rparr>"
    by blast
  then have a2: "toRegExp (PStr ''/a.c'') =
     Inr \<lparr>source = escapeSource (pathPattern ''/a.c''),
          ast = Alt (mkSeq [Bol, Lit (CHR ''/''), Lit (CHR ''a''), Dot, Lit (CHR ''c''),
                            Opt (Lit (CHR ''/'')), Eol])
                    (mkSeq [Lit (CHR ''?'')])\<rparr>"
    by (simp add: initState_def)
  from C7_unescaped_path_pattern[OF q0, of "''/a.c''"] d pa pc
  have "accepts (PStr ''/a.c'') ''/abc'' \<longleftrightarrow>
      (\<exists>c. \<not> isLineTerminator c \<and> (''/abc'' = ''/a'' @ c # ''c'' \<or> ''/abc'' = ''/a'' @ c # ''c'' @ ''/''))"
    by blast
  then have b1: "accepts (PStr ''/a.c'') ''/abc''"
    by (simp add: isLineTerminator_def)
  from C7_unescaped_path_pattern[OF q4, of "''/a.c''"] d pa pc
  have "accepts (PStr ''/a.c'') ''/a.c/'' \<longleftrightarrow>
      (\<exists>c. \<not> isLineTerminator c \<and> (''/a.c/'' = ''/a'' @ c # ''c'' \<or> ''/a.c/'' = ''/a'' @ c # ''c'' @ ''/''))"
    by blast
  then have b2: "accepts (PStr ''/a.c'') ''/a.c/''"
    by (simp add: isLineTerminator_def)
  from C7_unescaped_path_pattern[OF q5, of "''/a.c''"] d pa pc
  have "accepts (PStr ''/a.c'') ''/ac'' \<longleftrightarrow>
      (\<exists>c. \<not> isLineTerminator c \<and> (''/ac'' = ''/a'' @ c # ''c'' \<or> ''/ac'' = ''/a'' @ c # ''c'' @ ''/''))"
    by blast
  then have b3: "\<not> accepts (PStr ''/a.c'') ''/ac''"
    by simp
  from C7_unescaped_path_pattern[OF q0, of "''/a(b''"] g pa pb
  have e: "toRegExp (PStr ''/a(b'') = Inl SyntaxError"
    by blast
  from C7_unescaped_path_pattern[OF q1, of "''/echo''"] pe have c0: "toRegExp (PStr ''/echo'') = Inr exEchoPath"
    unfolding exEchoPath_def by blast
  from C7_unescaped_path_pattern[OF q1, of "''/echo''"] pe have c1: "accepts (PStr ''/echo'') ''/echo/''"
    by simp
  from C7_unescaped_path_pattern[OF q2, of "''/echo''"] pe have c2: "\<not> accepts (PStr ''/echo'') ''/echo/x''"
    by simp
  from C7_unescaped_path_pattern[OF q3, of "''/echo''"] pe have c3: "\<not> accepts (PStr ''/echo'') ''/v1/echo''"
    by simp
  from r a2 b1 b2 b3 e c0 c1 c2 c3 show ?thesis by (intro conjI)
qed

text \<open>
  Claim C9. A string path that does not make a well-formed pattern makes the registration
  fail, with the error of the \<open>RegExp\<close> constructor (a \<open>SyntaxError\<close>) and with nothing
  registered; a registration that succeeds has stored the pattern already made, so that testing
  a request against a route builds no pattern and raises no such error.
\<close>

theorem C9_malformed_pattern_fails_at_registration:
  "(RegExp (pathPattern p) = Inl e \<longrightarrow>
      Router_route (PStr p) m l rt = Inl e \<and> Simpress_route (PStr p) m l app = Inl e) \<and>
   (Router_route pth m l rt = Inr (r, rt') \<longrightarrow>
      toRegExp pth = Inr (path r) \<and> (\<forall>kr\<in>set (routes rt'). kr \<in> set (routes rt) \<or> snd kr = r)) \<and>
   (Simpress_route pth m l app = Inr (r, app') \<longrightarrow> toRegExp pth = Inr (path r))"
proof (intro conjI impI)
  assume "RegExp (pathPattern p) = Inl e"
  then show "Router_route (PStr p) m l rt = Inl e" "Simpress_route (PStr p) m l app = Inl e"
    by (simp_all add: Router_route_def Simpress_route_def)
next
  assume a: "Router_route pth m l rt = Inr (r, rt')"
  then show "toRegExp pth = Inr (path r)"
    by (auto simp: Router_route_def Let_def Route_def split: sum.splits)
  from a obtain k where "routes rt' = mapSet k r (routes rt)"
    by (auto simp: Router_route_def Let_def split: sum.splits)
  moreover have "kr \<in> set (mapSet k r kvs) \<Longrightarrow> kr \<in> set kvs \<or> snd kr = r" for kr kvs
    by (induction kvs) (auto split: if_splits)
  ultimately show "\<forall>kr\<in>set (routes rt'). kr \<in> set (routes rt) \<or> snd kr = r"
    by auto
next
  assume "Simpress_route pth m l app = Inr (r, app')"
  then show "toRegExp pth = Inr (path r)"
    by (auto simp: Simpress_route_def Let_def Route_def split: sum.splits list.splits)
qed

theorem C9_witness:
  "RegExp (pathPattern ''/a(b'') = Inl SyntaxError \<and>
   Router_route (PStr ''/a(b'') ''GET'' 7 Router = Inl SyntaxError \<and>
   Simpress_route (PStr ''/a(b'') ''GET'' 7 Simpress = Inl SyntaxError"
proof -
  have a: "RegExp (pathPattern ''/a(b'') = Inl SyntaxError"
    by code_simp
  from C9_malformed_pattern_fails_at_registration[of "''/a(b''" SyntaxError "''GET''" 7
      Router Simpress] a
  have "Router_route (PStr ''/a(b'') ''GET'' 7 Router = Inl SyntaxError \<and>
        Simpress_route (PStr ''/a(b'') ''GET'' 7 Simpress = Inl SyntaxError"
    by blast
  with a show ?thesis by blast
qed

end
